theory Spec2Isabelle
  imports Main "HOL-Library.Monad_Syntax"
begin

section \<open>The doubly-linked list of listHeader.hpp and listImplementation.tpp\<close>

text \<open>
  The C++ class template \<open>List<T>\<close> is embedded over an explicit store. A \<open>Node*\<close> is
  an optional address (\<open>None\<close> is \<open>nullptr\<close>), the free store maps the addresses of the
  live nodes to their contents, and the \<open>List\<close> objects themselves live in a second store
  indexed by the address of the object (\<open>this\<close>, \<open>&other\<close>), so that two references to
  the same object alias as they do in C++.

  Every operation returns an \<open>option\<close>: \<open>None\<close> stands for an execution without a defined
  result, that is, one that dereferences a null or dangling pointer, or a loop that does not
  end. \<open>std::out_of_range\<close> is the value \<open>Inl Out_of_range\<close>. In the operations
  \<open>new Node\<close> returns a node; a free store that is full, where \<open>new\<close> throws
  \<open>std::bad_alloc\<close>, is modelled apart, for \<open>push_back\<close>.

  The element type \<open>T\<close> is the type variable \<open>'a\<close>; copying, moving or constructing an
  element in place all store the resulting value, so the overloads of one operation that differ
  only in how the element is passed (\<open>const T&\<close>, \<open>T&\<close>, \<open>T&&\<close>, \<open>Args&&...\<close>) and
  in the constness of the iterator have one definition each. The member \<open>size\<close> and the
  arguments of type \<open>size_type\<close> are natural numbers, \<open>size_t\<close> having 64 bits:
  \<open>--size\<close> on 0 wraps to \<open>2 ^ 64 - 1\<close>, as it does when \<open>erase\<close> is given a node of
  another list; \<open>++size\<close> is written without its wrap, since \<open>2 ^ 64 - 1\<close> live nodes do
  not fit in the address space.
\<close>

subsection \<open>Data\<close>

type_synonym addr = nat
type_synonym ptr = "addr option"
type_synonym lid = nat

record 'a Node =
  data :: 'a
  "next" :: ptr
  prev :: ptr

record List_obj =
  head :: ptr
  tail :: ptr
  size_n :: nat

text \<open>
  \<open>cells\<close> is the free store, \<open>brk\<close> the address the next \<open>new Node\<close> returns (addresses
  are handed out in increasing order and never handed out twice), \<open>objs\<close> the \<open>List\<close>
  objects.
\<close>

record 'a state =
  cells :: "addr \<rightharpoonup> 'a Node"
  brk :: addr
  objs :: "lid \<Rightarrow> List_obj"

datatype exn = Out_of_range | Bad_alloc

subsection \<open>Nodes in the free store\<close>

text \<open>\<open>new Node(value)\<close>: both constructors leave \<open>next\<close> and \<open>prev\<close> null.\<close>

definition new_Node :: "'a \<Rightarrow> 'a state \<Rightarrow> addr \<times> 'a state" where
  "new_Node v s =
     (brk s, s\<lparr>cells := (cells s)(brk s \<mapsto> \<lparr>data = v, next = None, prev = None\<rparr>),
               brk := Suc (brk s)\<rparr>)"

definition deref :: "ptr \<Rightarrow> 'a state \<Rightarrow> 'a Node option" where
  "deref p s = (case p of None \<Rightarrow> None | Some a \<Rightarrow> cells s a)"

definition get_next :: "ptr \<Rightarrow> 'a state \<Rightarrow> ptr option" where
  "get_next p s = map_option next (deref p s)"

definition get_prev :: "ptr \<Rightarrow> 'a state \<Rightarrow> ptr option" where
  "get_prev p s = map_option prev (deref p s)"

definition get_data :: "ptr \<Rightarrow> 'a state \<Rightarrow> 'a option" where
  "get_data p s = map_option data (deref p s)"

text \<open>\<open>p->next = q\<close> and \<open>p->prev = q\<close>.\<close>

definition set_next :: "ptr \<Rightarrow> ptr \<Rightarrow> 'a state \<Rightarrow> 'a state option" where
  "set_next p q s =
     (case p of None \<Rightarrow> None
      | Some a \<Rightarrow> (case cells s a of None \<Rightarrow> None
                   | Some n \<Rightarrow> Some (s\<lparr>cells := (cells s)(a \<mapsto> n\<lparr>next := q\<rparr>)\<rparr>)))"

definition set_prev :: "ptr \<Rightarrow> ptr \<Rightarrow> 'a state \<Rightarrow> 'a state option" where
  "set_prev p q s =
     (case p of None \<Rightarrow> None
      | Some a \<Rightarrow> (case cells s a of None \<Rightarrow> None
                   | Some n \<Rightarrow> Some (s\<lparr>cells := (cells s)(a \<mapsto> n\<lparr>prev := q\<rparr>)\<rparr>)))"

text \<open>\<open>delete p\<close>: nothing happens for a null pointer; the node must be live otherwise.\<close>

definition delete :: "ptr \<Rightarrow> 'a state \<Rightarrow> 'a state option" where
  "delete p s =
     (case p of None \<Rightarrow> Some s
      | Some a \<Rightarrow> (case cells s a of None \<Rightarrow> None
                   | Some n \<Rightarrow> Some (s\<lparr>cells := (cells s)(a := None)\<rparr>)))"

subsection \<open>The members of a List object\<close>

definition set_head :: "lid \<Rightarrow> ptr \<Rightarrow> 'a state \<Rightarrow> 'a state" where
  "set_head this p s = s\<lparr>objs := (objs s)(this := (objs s this)\<lparr>head := p\<rparr>)\<rparr>"

definition set_tail :: "lid \<Rightarrow> ptr \<Rightarrow> 'a state \<Rightarrow> 'a state" where
  "set_tail this p s = s\<lparr>objs := (objs s)(this := (objs s this)\<lparr>tail := p\<rparr>)\<rparr>"

definition set_size :: "lid \<Rightarrow> nat \<Rightarrow> 'a state \<Rightarrow> 'a state" where
  "set_size this n s = s\<lparr>objs := (objs s)(this := (objs s this)\<lparr>size_n := n\<rparr>)\<rparr>"

text \<open>\<open>++size\<close> and \<open>--size\<close>.\<close>

definition inc_size :: "lid \<Rightarrow> 'a state \<Rightarrow> 'a state" where
  "inc_size this s = set_size this (size_n (objs s this) + 1) s"

definition dec_size :: "lid \<Rightarrow> 'a state \<Rightarrow> 'a state" where
  "dec_size this s =
     set_size this (if size_n (objs s this) = 0 then 2 ^ 64 - 1 else size_n (objs s this) - 1) s"

text \<open>\<open>List()\<close>: every object starts out default-constructed, and no node is live.\<close>

definition empty_obj :: List_obj where
  "empty_obj = \<lparr>head = None, tail = None, size_n = 0\<rparr>"

definition init :: "'a state" where
  "init = \<lparr>cells = Map.empty, brk = 0, objs = (\<lambda>_. empty_obj)\<rparr>"

subsection \<open>Iterators\<close>

text \<open>
  All four iterator classes hold one \<open>node_ptr\<close>. \<open>operator*\<close> reads \<open>node_ptr->data\<close>;
  \<open>operator++\<close> of the forward iterators follows \<open>next\<close>, that of the reverse iterators
  follows \<open>prev\<close>.
\<close>

definition begin_it :: "lid \<Rightarrow> 'a state \<Rightarrow> ptr" where
  "begin_it this s = head (objs s this)"

definition end_it :: ptr where
  "end_it = None"

definition rbegin :: "lid \<Rightarrow> 'a state \<Rightarrow> ptr" where
  "rbegin this s = tail (objs s this)"

definition rend :: ptr where
  "rend = None"

definition getSize :: "lid \<Rightarrow> 'a state \<Rightarrow> nat" where
  "getSize this s = size_n (objs s this)"

definition empty_l :: "lid \<Rightarrow> 'a state \<Rightarrow> bool" where
  "empty_l this s = (begin_it this s = end_it)"

text \<open>
  The traversal loops of a caller:
  \<open>for (it = begin(); it != end(); ++it) out.push_back(*it);\<close> and the same loop from
  \<open>rbegin()\<close> to \<open>rend()\<close>.
\<close>

partial_function (option) forward :: "ptr \<Rightarrow> 'a state \<Rightarrow> 'a list option" where
  "forward it s =
     (if it \<noteq> end_it
      then do { v \<leftarrow> get_data it s; it' \<leftarrow> get_next it s; vs \<leftarrow> forward it' s; Some (v # vs) }
      else Some [])"

partial_function (option) backward :: "ptr \<Rightarrow> 'a state \<Rightarrow> 'a list option" where
  "backward it s =
     (if it \<noteq> rend
      then do { v \<leftarrow> get_data it s; it' \<leftarrow> get_prev it s; vs \<leftarrow> backward it' s; Some (v # vs) }
      else Some [])"

subsection \<open>Element access\<close>

definition front :: "lid \<Rightarrow> 'a state \<Rightarrow> (exn + 'a) option" where
  "front this s =
     (if head (objs s this) = None then Some (Inl Out_of_range)
      else map_option Inr (get_data (head (objs s this)) s))"

definition back_l :: "lid \<Rightarrow> 'a state \<Rightarrow> (exn + 'a) option" where
  "back_l this s =
     (if tail (objs s this) = None then Some (Inl Out_of_range)
      else map_option Inr (get_data (tail (objs s this)) s))"

subsection \<open>Insertion\<close>

definition push_back :: "lid \<Rightarrow> 'a \<Rightarrow> 'a state \<Rightarrow> 'a state option" where
  "push_back this v s0 =
     (case new_Node v s0 of (new_node, s1) \<Rightarrow>
        do { s \<leftarrow> (if head (objs s1 this) = None
                   then Some (set_head this (Some new_node) (set_tail this (Some new_node) s1))
                   else do { s \<leftarrow> set_next (tail (objs s1 this)) (Some new_node) s1;
                             s \<leftarrow> set_prev (Some new_node) (tail (objs s this)) s;
                             Some (set_tail this (Some new_node) s) });
             Some (inc_size this s) })"

text \<open>\<open>emplace_back\<close> tests \<open>tail\<close> where \<open>push_back\<close> tests \<open>head\<close>.\<close>

definition emplace_back :: "lid \<Rightarrow> 'a \<Rightarrow> 'a state \<Rightarrow> 'a state option" where
  "emplace_back this v s0 =
     (case new_Node v s0 of (new_node, s1) \<Rightarrow>
        do { s \<leftarrow> (if tail (objs s1 this) = None
                   then Some (set_head this (Some new_node) (set_tail this (Some new_node) s1))
                   else do { s \<leftarrow> set_next (tail (objs s1 this)) (Some new_node) s1;
                             s \<leftarrow> set_prev (Some new_node) (tail (objs s this)) s;
                             Some (set_tail this (Some new_node) s) });
             Some (inc_size this s) })"

text \<open>\<open>push_front\<close> (both overloads) and \<open>emplace_front\<close> have the same body.\<close>

definition push_front :: "lid \<Rightarrow> 'a \<Rightarrow> 'a state \<Rightarrow> 'a state option" where
  "push_front this v s0 =
     (case new_Node v s0 of (new_node, s1) \<Rightarrow>
        do { s \<leftarrow> (if head (objs s1 this) = None
                   then Some (set_head this (Some new_node) (set_tail this (Some new_node) s1))
                   else do { s \<leftarrow> set_prev (head (objs s1 this)) (Some new_node) s1;
                             s \<leftarrow> set_next (Some new_node) (head (objs s this)) s;
                             Some (set_head this (Some new_node) s) });
             Some (inc_size this s) })"

definition emplace_front :: "lid \<Rightarrow> 'a \<Rightarrow> 'a state \<Rightarrow> 'a state option" where
  "emplace_front this v s0 =
     (case new_Node v s0 of (new_node, s1) \<Rightarrow>
        do { s \<leftarrow> (if head (objs s1 this) = None
                   then Some (set_head this (Some new_node) (set_tail this (Some new_node) s1))
                   else do { s \<leftarrow> set_prev (head (objs s1 this)) (Some new_node) s1;
                             s \<leftarrow> set_next (Some new_node) (head (objs s this)) s;
                             Some (set_head this (Some new_node) s) });
             Some (inc_size this s) })"

text \<open>
  \<open>insert(pos, value)\<close>: the four single-element overloads and \<open>emplace\<close> share this body.
  The result is the iterator to the new node and the new state.
\<close>

definition insert_node :: "lid \<Rightarrow> ptr \<Rightarrow> 'a \<Rightarrow> 'a state \<Rightarrow> (ptr \<times> 'a state) option" where
  "insert_node this pos v s0 =
     (case new_Node v s0 of (new_node, s1) \<Rightarrow>
        let current = pos in
        do { s \<leftarrow> (if current = None
                   then (if head (objs s1 this) = None
                         then Some (set_head this (Some new_node)
                                      (set_tail this (Some new_node) s1))
                         else do { s \<leftarrow> set_next (tail (objs s1 this)) (Some new_node) s1;
                                   s \<leftarrow> set_prev (Some new_node) (tail (objs s this)) s;
                                   Some (set_tail this (Some new_node) s) })
                   else (if current = head (objs s1 this)
                         then do { s \<leftarrow> set_next (Some new_node) (head (objs s1 this)) s1;
                                   s \<leftarrow> set_prev (head (objs s this)) (Some new_node) s;
                                   Some (set_head this (Some new_node) s) }
                         else do { s \<leftarrow> set_next (Some new_node) current s1;
                                   cp \<leftarrow> get_prev current s;
                                   s \<leftarrow> set_prev (Some new_node) cp s;
                                   cp \<leftarrow> get_prev current s;
                                   s \<leftarrow> set_next cp (Some new_node) s;
                                   set_prev current (Some new_node) s }));
             Some (Some new_node, inc_size this s) })"

text \<open>
  \<open>insert(pos, count, value)\<close>:
  \<open>iter = pos; for (i = 0; i < count; ++i) iter = insert(iter, value); return iter;\<close>
\<close>

fun insert_n :: "lid \<Rightarrow> ptr \<Rightarrow> nat \<Rightarrow> 'a \<Rightarrow> 'a state \<Rightarrow> (ptr \<times> 'a state) option" where
  "insert_n this iter 0 v s = Some (iter, s)"
| "insert_n this iter (Suc n) v s =
     do { (iter', s') \<leftarrow> insert_node this iter v s; insert_n this iter' n v s' }"

text \<open>
  \<open>insert(pos, first, last)\<close>:
  \<open>iter = pos; while (first != last) { iter = insert(iter, *first); ++first; } return iter;\<close>
  The source range is the list of the values \<open>*first\<close> takes; it is not a range of this list
  itself.
\<close>

fun insert_range :: "lid \<Rightarrow> ptr \<Rightarrow> 'a list \<Rightarrow> 'a state \<Rightarrow> (ptr \<times> 'a state) option" where
  "insert_range this iter [] s = Some (iter, s)"
| "insert_range this iter (x # xs) s =
     do { (iter', s') \<leftarrow> insert_node this iter x s; insert_range this iter' xs s' }"

definition insert_ilist :: "lid \<Rightarrow> ptr \<Rightarrow> 'a list \<Rightarrow> 'a state \<Rightarrow> (ptr \<times> 'a state) option" where
  "insert_ilist this pos ilist s = insert_range this pos ilist s"

text \<open>\<open>append_range\<close>: \<open>for (auto&& elem : rg) emplace_back(elem);\<close>\<close>

fun append_range :: "lid \<Rightarrow> 'a list \<Rightarrow> 'a state \<Rightarrow> 'a state option" where
  "append_range this [] s = Some s"
| "append_range this (x # xs) s = do { s' \<leftarrow> emplace_back this x s; append_range this xs s' }"

text \<open>
  \<open>prepend_range\<close>:
  \<open>for (it = std::rbegin(rg); it != std::rend(rg); ++it) emplace_front(*it);\<close>
\<close>

fun emplace_front_all :: "lid \<Rightarrow> 'a list \<Rightarrow> 'a state \<Rightarrow> 'a state option" where
  "emplace_front_all this [] s = Some s"
| "emplace_front_all this (x # xs) s =
     do { s' \<leftarrow> emplace_front this x s; emplace_front_all this xs s' }"

definition prepend_range :: "lid \<Rightarrow> 'a list \<Rightarrow> 'a state \<Rightarrow> 'a state option" where
  "prepend_range this rg s = emplace_front_all this (rev rg) s"

subsection \<open>Removal\<close>

definition erase :: "lid \<Rightarrow> ptr \<Rightarrow> 'a state \<Rightarrow> (ptr \<times> 'a state) option" where
  "erase this pos s0 =
     (let current = pos in
      if current = None then Some (end_it, s0)
      else do {
        next_node \<leftarrow> get_next current s0;
        s \<leftarrow> (if current = head (objs s0 this)
              then do { n \<leftarrow> get_next current s0;
                        let s = set_head this n s0;
                        if head (objs s this) \<noteq> None
                        then set_prev (head (objs s this)) None s
                        else Some (set_tail this None s) }
              else if current = tail (objs s0 this)
              then do { p \<leftarrow> get_prev (tail (objs s0 this)) s0;
                        let s = set_tail this p s0;
                        if tail (objs s this) \<noteq> None
                        then set_next (tail (objs s this)) None s
                        else Some (set_head this None s) }
              else do { cp \<leftarrow> get_prev current s0;
                        cn \<leftarrow> get_next current s0;
                        s \<leftarrow> set_next cp cn s0;
                        cn \<leftarrow> get_next current s;
                        cp \<leftarrow> get_prev current s;
                        set_prev cn cp s });
        s \<leftarrow> delete current s;
        Some (next_node, dec_size this s) })"

text \<open>\<open>erase(first, last)\<close>: \<open>while (first != last) first = erase(first); return last;\<close>\<close>

partial_function (option) erase_range ::
  "lid \<Rightarrow> ptr \<Rightarrow> ptr \<Rightarrow> 'a state \<Rightarrow> (ptr \<times> 'a state) option" where
  "erase_range this first lst s =
     (if first \<noteq> lst
      then do { (first', s') \<leftarrow> erase this first s; erase_range this first' lst s' }
      else Some (lst, s))"

definition pop_back :: "lid \<Rightarrow> 'a state \<Rightarrow> 'a state option" where
  "pop_back this s0 =
     (if head (objs s0 this) = None then Some s0
      else do {
        let temp = tail (objs s0 this);
        p \<leftarrow> get_prev (tail (objs s0 this)) s0;
        let s = set_tail this p s0;
        s \<leftarrow> (if tail (objs s this) \<noteq> None
              then set_next (tail (objs s this)) None s
              else Some (set_head this None s));
        s \<leftarrow> delete temp s;
        Some (dec_size this s) })"

definition pop_front :: "lid \<Rightarrow> 'a state \<Rightarrow> 'a state option" where
  "pop_front this s0 =
     (if head (objs s0 this) = None then Some s0
      else do {
        let temp = head (objs s0 this);
        n \<leftarrow> get_next (head (objs s0 this)) s0;
        let s = set_head this n s0;
        s \<leftarrow> (if head (objs s this) \<noteq> None
              then set_prev (head (objs s this)) None s
              else Some (set_tail this None s));
        s \<leftarrow> delete temp s;
        Some (dec_size this s) })"

text \<open>
  \<open>clear\<close>:
  \<open>current = head; while (current) { tmp = current->next; delete current; current = tmp; }
  head = tail = nullptr; size = 0;\<close>
\<close>

partial_function (option) clear_loop :: "ptr \<Rightarrow> 'a state \<Rightarrow> 'a state option" where
  "clear_loop current s =
     (if current \<noteq> None
      then do { tmp \<leftarrow> get_next current s; s' \<leftarrow> delete current s; clear_loop tmp s' }
      else Some s)"

definition clear :: "lid \<Rightarrow> 'a state \<Rightarrow> 'a state option" where
  "clear this s0 =
     do { s \<leftarrow> clear_loop (head (objs s0 this)) s0;
          Some (set_size this 0 (set_head this None (set_tail this None s))) }"

subsection \<open>Size and shape\<close>

partial_function (option) shrink_loop :: "lid \<Rightarrow> nat \<Rightarrow> 'a state \<Rightarrow> 'a state option" where
  "shrink_loop this count s =
     (if size_n (objs s this) > count
      then do { s' \<leftarrow> pop_back this s; shrink_loop this count s' }
      else Some s)"

partial_function (option) grow_loop :: "lid \<Rightarrow> nat \<Rightarrow> 'a \<Rightarrow> 'a state \<Rightarrow> 'a state option" where
  "grow_loop this count v s =
     (if size_n (objs s this) < count
      then do { s' \<leftarrow> emplace_back this v s; grow_loop this count v s' }
      else Some s)"

text \<open>
  \<open>resize(count, value)\<close>. \<open>resize(count)\<close> is the same function with the
  default-constructed element for \<open>value\<close>.
\<close>

definition resize :: "lid \<Rightarrow> nat \<Rightarrow> 'a \<Rightarrow> 'a state \<Rightarrow> 'a state option" where
  "resize this count v s =
     (if count < size_n (objs s this) then shrink_loop this count s
      else if count > size_n (objs s this) then grow_loop this count v s
      else Some s)"

text \<open>
  \<open>swap\<close>: three calls of \<open>std::swap\<close> on the members of \<open>*this\<close> and \<open>other\<close>, each
  \<open>tmp = a; a = b; b = tmp\<close> on the store of objects.
\<close>

definition swap_l :: "lid \<Rightarrow> lid \<Rightarrow> 'a state \<Rightarrow> 'a state" where
  "swap_l this other s0 =
     (let tmp = head (objs s0 this);
          s = set_head this (head (objs s0 other)) s0;
          s1 = set_head other tmp s;
          tmp = tail (objs s1 this);
          s = set_tail this (tail (objs s1 other)) s1;
          s2 = set_tail other tmp s;
          tmp = size_n (objs s2 this);
          s = set_size this (size_n (objs s2 other)) s2
      in set_size other tmp s)"

subsection \<open>Assignment\<close>

text \<open>\<open>operator=(List&&)\<close>\<close>

definition move_assign :: "lid \<Rightarrow> lid \<Rightarrow> 'a state \<Rightarrow> 'a state option" where
  "move_assign this other s0 =
     (if this \<noteq> other
      then do {
        s \<leftarrow> clear this s0;
        let s = set_head this (head (objs s other)) s;
        let s = set_tail this (tail (objs s other)) s;
        let s = set_size this (size_n (objs s other)) s;
        let s = set_head other None s;
        let s = set_tail other None s;
        Some (set_size other 0 s) }
      else Some s0)"

text \<open>
  \<open>operator=(const List&)\<close>:
  \<open>for (current = other.head; current; current = current->next) push_back(current->data);\<close>
\<close>

partial_function (option) copy_loop :: "lid \<Rightarrow> ptr \<Rightarrow> 'a state \<Rightarrow> 'a state option" where
  "copy_loop this current s =
     (if current \<noteq> None
      then do { v \<leftarrow> get_data current s;
                s' \<leftarrow> push_back this v s;
                n \<leftarrow> get_next current s';
                copy_loop this n s' }
      else Some s)"

definition copy_assign :: "lid \<Rightarrow> lid \<Rightarrow> 'a state \<Rightarrow> 'a state option" where
  "copy_assign this other s0 =
     (if this \<noteq> other
      then do { s \<leftarrow> clear this s0; copy_loop this (head (objs s other)) s }
      else Some s0)"

fun push_back_all :: "lid \<Rightarrow> 'a list \<Rightarrow> 'a state \<Rightarrow> 'a state option" where
  "push_back_all this [] s = Some s"
| "push_back_all this (x # xs) s = do { s' \<leftarrow> push_back this x s; push_back_all this xs s' }"

text \<open>
  \<open>operator=(std::initializer_list)\<close>, \<open>assign(ilist)\<close> and \<open>assign(first, last)\<close>:
  \<open>clear()\<close>, then \<open>push_back\<close> of every element in order.
\<close>

definition assign_range :: "lid \<Rightarrow> 'a list \<Rightarrow> 'a state \<Rightarrow> 'a state option" where
  "assign_range this xs s0 = do { s \<leftarrow> clear this s0; push_back_all this xs s }"

text \<open>\<open>assign(count, value)\<close>: \<open>clear(); for (i = 0; i < count; ++i) push_back(value);\<close>\<close>

fun push_back_n :: "lid \<Rightarrow> nat \<Rightarrow> 'a \<Rightarrow> 'a state \<Rightarrow> 'a state option" where
  "push_back_n this 0 v s = Some s"
| "push_back_n this (Suc n) v s = do { s' \<leftarrow> push_back this v s; push_back_n this n v s' }"

definition assign_n :: "lid \<Rightarrow> nat \<Rightarrow> 'a \<Rightarrow> 'a state \<Rightarrow> 'a state option" where
  "assign_n this count v s0 = do { s \<leftarrow> clear this s0; push_back_n this count v s }"

subsection \<open>A free store that is full\<close>

text \<open>
  \<open>new Node(value)\<close> on a free store with room for \<open>cap\<close> nodes: it throws
  \<open>std::bad_alloc\<close> when \<open>cap\<close> nodes are live. The allocation is the first statement
  of \<open>push_back\<close> and nothing catches the exception: when \<open>new\<close> throws, the call ends
  with that exception; when it returns the node, the call goes on as \<open>push_back\<close>.
\<close>

definition new_Node_in :: "nat \<Rightarrow> 'a \<Rightarrow> 'a state \<Rightarrow> exn + addr \<times> 'a state" where
  "new_Node_in cap v s =
     (if finite (dom (cells s)) \<and> card (dom (cells s)) < cap then Inr (new_Node v s)
      else Inl Bad_alloc)"

definition push_back_in :: "nat \<Rightarrow> lid \<Rightarrow> 'a \<Rightarrow> 'a state \<Rightarrow> (exn + 'a state) option" where
  "push_back_in cap this v s0 =
     (case new_Node_in cap v s0 of
        Inl e \<Rightarrow> Some (Inl e)
      | Inr _ \<Rightarrow> map_option Inr (push_back this v s0))"

subsection \<open>Calls of the public interface\<close>

text \<open>
  One constructor for each public operation whose body differs. \<open>Insert\<close> stands for the
  single-element overloads of \<open>insert\<close> and for \<open>emplace\<close>, \<open>Insert_range\<close> for the
  range and initializer-list overloads, \<open>Resize\<close> for both overloads of \<open>resize\<close> (the
  value is the default-constructed element for the one-argument overload), \<open>Assign_range\<close>
  for the assignments from a range or an initializer list. A call ends with an exception
  (\<open>Inl\<close>) or with the next state (\<open>Inr\<close>); the values returned to the caller are dropped.
  Every \<open>new\<close> of a call returns a node here.
\<close>

datatype 'a op =
    Push_back lid 'a
  | Emplace_back lid 'a
  | Push_front lid 'a
  | Emplace_front lid 'a
  | Insert lid ptr 'a
  | Insert_n lid ptr nat 'a
  | Insert_range lid ptr "'a list"
  | Erase lid ptr
  | Erase_range lid ptr ptr
  | Pop_back lid
  | Pop_front lid
  | Clear lid
  | Resize lid nat 'a
  | Swap lid lid
  | Move_assign lid lid
  | Copy_assign lid lid
  | Assign_range lid "'a list"
  | Assign_n lid nat 'a
  | Append_range lid "'a list"
  | Prepend_range lid "'a list"
  | Front lid
  | Back lid

definition returned :: "'a state \<Rightarrow> (exn + 'b) \<Rightarrow> exn + 'a state" where
  "returned s r = (case r of Inl e \<Rightarrow> Inl e | Inr _ \<Rightarrow> Inr s)"

fun exec :: "'a op \<Rightarrow> 'a state \<Rightarrow> (exn + 'a state) option" where
  "exec (Push_back t v) s = map_option Inr (push_back t v s)"
| "exec (Emplace_back t v) s = map_option Inr (emplace_back t v s)"
| "exec (Push_front t v) s = map_option Inr (push_front t v s)"
| "exec (Emplace_front t v) s = map_option Inr (emplace_front t v s)"
| "exec (Insert t pos v) s = map_option (\<lambda>r. Inr (snd r)) (insert_node t pos v s)"
| "exec (Insert_n t pos n v) s = map_option (\<lambda>r. Inr (snd r)) (insert_n t pos n v s)"
| "exec (Insert_range t pos xs) s = map_option (\<lambda>r. Inr (snd r)) (insert_range t pos xs s)"
| "exec (Erase t pos) s = map_option (\<lambda>r. Inr (snd r)) (erase t pos s)"
| "exec (Erase_range t first lst) s = map_option (\<lambda>r. Inr (snd r)) (erase_range t first lst s)"
| "exec (Pop_back t) s = map_option Inr (pop_back t s)"
| "exec (Pop_front t) s = map_option Inr (pop_front t s)"
| "exec (Clear t) s = map_option Inr (clear t s)"
| "exec (Resize t n v) s = map_option Inr (resize t n v s)"
| "exec (Swap t u) s = Some (Inr (swap_l t u s))"
| "exec (Move_assign t u) s = map_option Inr (move_assign t u s)"
| "exec (Copy_assign t u) s = map_option Inr (copy_assign t u s)"
| "exec (Assign_range t xs) s = map_option Inr (assign_range t xs s)"
| "exec (Assign_n t n v) s = map_option Inr (assign_n t n v s)"
| "exec (Append_range t xs) s = map_option Inr (append_range t xs s)"
| "exec (Prepend_range t xs) s = map_option Inr (prepend_range t xs s)"
| "exec (Front t) s = map_option (returned s) (front t s)"
| "exec (Back t) s = map_option (returned s) (back_l t s)"

text \<open>
  A caller runs a sequence of calls; an exception is caught and the run goes on from the
  state of the call that threw.
\<close>

fun run :: "'a op list \<Rightarrow> 'a state \<Rightarrow> 'a state option" where
  "run [] s = Some s"
| "run (c # cs) s =
     (case exec c s of None \<Rightarrow> None
      | Some (Inl e) \<Rightarrow> run cs s
      | Some (Inr s') \<Rightarrow> run cs s')"

subsection \<open>What a caller owes: iterators into the list\<close>

text \<open>
  \<open>nodes f n p\<close> are the first \<open>n\<close> addresses met from \<open>p\<close> along the links \<open>f\<close>. An
  iterator passed to a list is the end iterator or points to one of the \<open>size\<close> nodes met
  from \<open>head\<close>; in \<open>erase(first, last)\<close>, \<open>last\<close> is met from \<open>first\<close>.
\<close>

primrec nodes :: "(addr \<Rightarrow> ptr option) \<Rightarrow> nat \<Rightarrow> ptr \<Rightarrow> addr list" where
  "nodes f 0 p = []"
| "nodes f (Suc n) p =
     (case p of None \<Rightarrow> []
      | Some a \<Rightarrow> (case f a of None \<Rightarrow> [] | Some r \<Rightarrow> a # nodes f n r))"

definition nexts :: "(addr \<rightharpoonup> 'a Node) \<Rightarrow> addr \<Rightarrow> ptr option" where
  "nexts h a = map_option next (h a)"

definition prevs :: "(addr \<rightharpoonup> 'a Node) \<Rightarrow> addr \<Rightarrow> ptr option" where
  "prevs h a = map_option prev (h a)"

definition datas :: "(addr \<rightharpoonup> 'a Node) \<Rightarrow> addr \<Rightarrow> 'a option" where
  "datas h a = map_option data (h a)"

definition valid_pos :: "lid \<Rightarrow> ptr \<Rightarrow> 'a state \<Rightarrow> bool" where
  "valid_pos t pos s =
     (case pos of None \<Rightarrow> True
      | Some a \<Rightarrow> a \<in> set (nodes (nexts (cells s)) (size_n (objs s t)) (head (objs s t))))"

definition valid_range :: "lid \<Rightarrow> ptr \<Rightarrow> ptr \<Rightarrow> 'a state \<Rightarrow> bool" where
  "valid_range t first lst s =
     (valid_pos t first s \<and>
      (case lst of None \<Rightarrow> True
       | Some b \<Rightarrow> b \<in> set (nodes (nexts (cells s)) (size_n (objs s t)) first)))"

fun valid_op :: "'a op \<Rightarrow> 'a state \<Rightarrow> bool" where
  "valid_op (Insert t pos v) s = valid_pos t pos s"
| "valid_op (Insert_n t pos n v) s = valid_pos t pos s"
| "valid_op (Insert_range t pos xs) s = valid_pos t pos s"
| "valid_op (Erase t pos) s = valid_pos t pos s"
| "valid_op (Erase_range t first lst) s = valid_range t first lst s"
| "valid_op c s = True"

fun valid_run :: "'a op list \<Rightarrow> 'a state \<Rightarrow> bool" where
  "valid_run [] s = True"
| "valid_run (c # cs) s =
     (valid_op c s \<and>
      (case exec c s of None \<Rightarrow> True
       | Some (Inl e) \<Rightarrow> valid_run cs s
       | Some (Inr s') \<Rightarrow> valid_run cs s'))"

subsection \<open>The list a List object represents\<close>

text \<open>
  \<open>path f p as q\<close>: following the links \<open>f\<close> from \<open>p\<close> visits exactly the live nodes
  \<open>as\<close>, in this order, and arrives at \<open>q\<close>.
\<close>

primrec path :: "(addr \<Rightarrow> ptr option) \<Rightarrow> ptr \<Rightarrow> addr list \<Rightarrow> ptr \<Rightarrow> bool" where
  "path f p [] q = (p = q)"
| "path f p (a # as) q =
     (p = Some a \<and> (case f a of None \<Rightarrow> False | Some r \<Rightarrow> path f r as q))"

text \<open>
  \<open>dll h l as vs\<close>: in the store \<open>h\<close> the object \<open>l\<close> is a doubly-linked list of the
  nodes \<open>as\<close> holding the values \<open>vs\<close>: \<open>next\<close> leads from \<open>head\<close> through \<open>as\<close>
  to null, \<open>prev\<close> leads from \<open>tail\<close> through \<open>as\<close> reversed to null, and \<open>size\<close> is
  the number of nodes.
\<close>

definition dll :: "(addr \<rightharpoonup> 'a Node) \<Rightarrow> List_obj \<Rightarrow> addr list \<Rightarrow> 'a list \<Rightarrow> bool" where
  "dll h l as vs \<longleftrightarrow>
     path (nexts h) (head l) as None \<and> path (prevs h) (tail l) (rev as) None \<and>
     size_n l = length as \<and> map (datas h) as = map Some vs"

definition repr :: "'a state \<Rightarrow> lid \<Rightarrow> addr list \<Rightarrow> 'a list \<Rightarrow> bool" where
  "repr s this as vs \<longleftrightarrow> dll (cells s) (objs s this) as vs"

text \<open>The allocator has handed out the addresses below \<open>brk\<close> only.\<close>

definition heap_ok :: "'a state \<Rightarrow> bool" where
  "heap_ok s \<longleftrightarrow> (\<forall>a. cells s a \<noteq> None \<longrightarrow> a < brk s)"

text \<open>
  A step of the list \<open>t\<close> from the nodes \<open>as\<close> to the nodes \<open>as'\<close> touches nothing but
  its own object, its own nodes and the nodes it allocates.
\<close>

definition step_ok :: "'a state \<Rightarrow> 'a state \<Rightarrow> lid \<Rightarrow> addr list \<Rightarrow> addr list \<Rightarrow> bool" where
  "step_ok s s' t as as' \<longleftrightarrow>
     heap_ok s' \<and> brk s \<le> brk s' \<and> set as' \<subseteq> set as \<union> {brk s..<brk s'} \<and>
     (\<forall>u. u \<noteq> t \<longrightarrow> objs s' u = objs s u) \<and>
     (\<forall>a. a < brk s \<longrightarrow> a \<notin> set as \<longrightarrow> cells s' a = cells s a)"

text \<open>
  A well-formed state: every object is a doubly-linked list, no two of them share a node.
\<close>

definition wf_state :: "'a state \<Rightarrow> (lid \<Rightarrow> addr list) \<Rightarrow> (lid \<Rightarrow> 'a list) \<Rightarrow> bool" where
  "wf_state s A V \<longleftrightarrow>
     heap_ok s \<and> (\<forall>t. repr s t (A t) (V t)) \<and>
     (\<forall>t u. t \<noteq> u \<longrightarrow> set (A t) \<inter> set (A u) = {})"

definition first :: "addr list \<Rightarrow> ptr" where
  "first as = (case as of [] \<Rightarrow> None | a # _ \<Rightarrow> Some a)"

text \<open>
  The invariant of the data model, for the list \<open>t\<close>: \<open>size\<close> is the number of nodes met
  from \<open>head\<close> along \<open>next\<close> before null; \<open>head\<close> and \<open>tail\<close> are both null or both
  not; the \<open>prev\<close> of the successor of a node of the list is that node; the \<open>prev\<close> of the
  head node and the \<open>next\<close> of the tail node are null.
\<close>

definition list_inv :: "lid \<Rightarrow> 'a state \<Rightarrow> bool" where
  "list_inv t s \<longleftrightarrow>
     (\<exists>as. path (nexts (cells s)) (head (objs s t)) as None \<and>
           size_n (objs s t) = length as \<and>
           (\<forall>a\<in>set as. \<forall>m. get_next (Some a) s = Some (Some m) \<longrightarrow>
                            get_prev (Some m) s = Some (Some a))) \<and>
     (head (objs s t) = None \<longleftrightarrow> tail (objs s t) = None) \<and>
     (head (objs s t) \<noteq> None \<longrightarrow>
        get_prev (head (objs s t)) s = Some None \<and> get_next (tail (objs s t)) s = Some None)"

subsection \<open>A concrete state\<close>

text \<open>
  The list 10, 20, 30 in the object 0, as three calls of \<open>push_back\<close> on the initial
  state leave it.
\<close>

definition demo :: "nat state" where
  "demo = \<lparr>cells = [0 \<mapsto> \<lparr>data = 10, next = Some 1, prev = None\<rparr>,
                    1 \<mapsto> \<lparr>data = 20, next = Some 2, prev = Some 0\<rparr>,
                    2 \<mapsto> \<lparr>data = 30, next = None, prev = Some 1\<rparr>],
            brk = 3,
            objs = (\<lambda>_. empty_obj)(0 := \<lparr>head = Some 0, tail = Some 2, size_n = 3\<rparr>)\<rparr>"

text \<open>A run of calls on the lists 0 and 1, each with iterators into its list.\<close>

definition demo_calls :: "nat op list" where
  "demo_calls =
     [Push_back 0 10, Push_back 0 20, Push_back 0 30, Insert 0 (Some 0) 5,
      Insert_n 0 (Some 3) 2 15, Erase 0 (Some 5), Erase_range 0 (Some 3) (Some 1),
      Pop_back 0, Pop_front 0, Swap 0 1, Front 0, Resize 1 2 99]"

text \<open>
  A run that passes \<open>erase\<close> of the list 0 an iterator to the middle node of the list 1,
  and the state it ends in.
\<close>

definition stray_calls :: "nat op list" where
  "stray_calls = [Push_back 1 7, Push_back 1 8, Push_back 1 9, Erase 0 (Some 1)]"

definition stray_state :: "nat state" where
  "stray_state =
     \<lparr>cells = [0 \<mapsto> \<lparr>data = 7, next = Some 2, prev = None\<rparr>,
               2 \<mapsto> \<lparr>data = 9, next = None, prev = Some 0\<rparr>],
      brk = 3,
      objs = (\<lambda>_. empty_obj)
               (0 := \<lparr>head = None, tail = None, size_n = 2 ^ 64 - 1\<rparr>,
                1 := \<lparr>head = Some 0, tail = Some 2, size_n = 3\<rparr>)\<rparr>"

text \<open>A call on a well-formed state returns or throws, and leaves a well-formed state.\<close>

definition wf_result :: "(exn + 'a state) option \<Rightarrow> bool" where
  "wf_result m \<longleftrightarrow>
     (\<exists>r. m = Some r \<and> (case r of Inl e \<Rightarrow> True | Inr s' \<Rightarrow> \<exists>A' V'. wf_state s' A' V'))"

section \<open>Paths and stores\<close>

lemma path_append: "path f p (as @ bs) q \<longleftrightarrow> (\<exists>r. path f p as r \<and> path f r bs q)"
  by (induction as arbitrary: p) (auto split: option.splits)

lemma path_snoc: "path f p (as @ [a]) q \<longleftrightarrow> path f p as (Some a) \<and> f a = Some q"
  by (auto simp: path_append split: option.splits)

lemma path_None [simp]: "path f None as q \<longleftrightarrow> as = [] \<and> q = None"
  by (cases as) auto

lemma path_SomeD: "path f p as (Some b) \<Longrightarrow> \<exists>y. p = Some y"
  by (cases p) auto

lemma path_first: "path f p as q \<Longrightarrow> as \<noteq> [] \<Longrightarrow> p = Some (hd as)"
  by (cases as) auto

lemma path_cong: "(\<And>a. a \<in> set as \<Longrightarrow> f a = g a) \<Longrightarrow> path f p as q = path g p as q"
  by (induction as arbitrary: p) (auto split: option.splits)

lemma path_upd_notin [simp]: "a \<notin> set as \<Longrightarrow> path (f(a := x)) p as q = path f p as q"
  by (rule path_cong) auto

lemma path_dom: "path f p as q \<Longrightarrow> set as \<subseteq> dom f"
  by (induction as arbitrary: p) (auto split: option.splits)

lemma path_unique: "path f p as None \<Longrightarrow> path f p bs None \<Longrightarrow> as = bs"
proof (induction as arbitrary: p bs)
  case Nil
  then show ?case by (cases bs) auto
next
  case (Cons a as)
  then show ?case by (cases bs) (auto split: option.splits)
qed

lemma path_hd_notin_tl:
  assumes "f a = Some r" "path f r as None"
  shows "a \<notin> set as"
proof
  assume "a \<in> set as"
  then obtain xs ys where as: "as = xs @ a # ys"
    by (auto simp: in_set_conv_decomp)
  with assms have "path f r ys None"
    by (auto simp: path_append)
  with assms(2) have "as = ys"
    by (rule path_unique)
  with as show False by simp
qed

lemma path_distinct: "path f p as None \<Longrightarrow> distinct as"
  by (induction as arbitrary: p) (auto split: option.splits dest: path_hd_notin_tl)

lemma nexts_upd [simp]: "nexts (h(a \<mapsto> n)) = (nexts h)(a \<mapsto> next n)"
  by (auto simp: nexts_def fun_eq_iff)

lemma prevs_upd [simp]: "prevs (h(a \<mapsto> n)) = (prevs h)(a \<mapsto> prev n)"
  by (auto simp: prevs_def fun_eq_iff)

lemma datas_upd [simp]: "datas (h(a \<mapsto> n)) = (datas h)(a \<mapsto> data n)"
  by (auto simp: datas_def fun_eq_iff)

lemma nexts_del [simp]: "nexts (h(a := None)) = (nexts h)(a := None)"
  by (auto simp: nexts_def fun_eq_iff)

lemma prevs_del [simp]: "prevs (h(a := None)) = (prevs h)(a := None)"
  by (auto simp: prevs_def fun_eq_iff)

lemma datas_del [simp]: "datas (h(a := None)) = (datas h)(a := None)"
  by (auto simp: datas_def fun_eq_iff)

lemma dll_distinct: "dll h l as vs \<Longrightarrow> distinct as"
  by (auto simp: dll_def dest: path_distinct)

lemma dom_nexts [simp]: "dom (nexts h) = dom h"
  by (auto simp: nexts_def dom_def)

lemma dom_prevs [simp]: "dom (prevs h) = dom h"
  by (auto simp: prevs_def dom_def)

lemma dll_dom: "dll h l as vs \<Longrightarrow> set as \<subseteq> dom h"
  by (auto simp: dll_def dest!: path_dom)

lemma dll_length: "dll h l as vs \<Longrightarrow> length vs = length as"
  by (auto simp: dll_def dest: arg_cong[where f=length])

lemma dll_Nil: "dll h l [] vs \<longleftrightarrow> head l = None \<and> tail l = None \<and> size_n l = 0 \<and> vs = []"
  by (auto simp: dll_def)

lemma dll_head_None: "dll h l as vs \<Longrightarrow> head l = None \<longleftrightarrow> as = []"
  by (cases as) (auto simp: dll_def)

lemma dll_tail_None: "dll h l as vs \<Longrightarrow> tail l = None \<longleftrightarrow> as = []"
  by (cases as rule: rev_cases) (auto simp: dll_def)

lemma map_fun_upd_notin: "a \<notin> set as \<Longrightarrow> map (f(a := x)) as = map f as"
  by (induction as) auto


lemma heap_okD: "heap_ok s \<Longrightarrow> cells s a = Some n \<Longrightarrow> a < brk s"
  by (auto simp: heap_ok_def)

lemma heap_ok_fresh: "heap_ok s \<Longrightarrow> cells s (brk s) = None"
  by (auto simp: heap_ok_def)

lemma repr_fresh: "repr s t as vs \<Longrightarrow> heap_ok s \<Longrightarrow> a \<in> set as \<Longrightarrow> a < brk s"
  using dll_dom[of "cells s" "objs s t" as vs] by (auto simp: repr_def dest: heap_okD)

lemma repr_distinct: "repr s t as vs \<Longrightarrow> distinct as"
  by (auto simp: repr_def dest: dll_distinct)

lemma repr_length: "repr s t as vs \<Longrightarrow> length vs = length as"
  by (auto simp: repr_def dest: dll_length)

lemma repr_head: "repr s t as vs \<Longrightarrow> as \<noteq> [] \<Longrightarrow> head (objs s t) = Some (hd as)"
  by (auto simp: repr_def dll_def dest: path_first)

lemma repr_tail: "repr s t as vs \<Longrightarrow> as \<noteq> [] \<Longrightarrow> tail (objs s t) = Some (last as)"
  by (auto simp: repr_def dll_def hd_rev dest!: path_first)

lemma datas_Some: "datas h a = Some v \<longleftrightarrow> (\<exists>n. h a = Some n \<and> data n = v)"
  by (auto simp: datas_def)

lemmas op_defs = new_Node_def set_head_def set_tail_def inc_size_def dec_size_def set_size_def
  set_next_def set_prev_def get_next_def get_prev_def get_data_def deref_def delete_def

section \<open>The operations on a well-formed list\<close>

lemma push_back_repr:
  assumes "repr s t as vs" "heap_ok s"
  shows "\<exists>s'. push_back t v s = Some s' \<and> repr s' t (as @ [brk s]) (vs @ [v]) \<and>
           brk s' = Suc (brk s) \<and> step_ok s s' t as (as @ [brk s])"
proof -
  from assms have fresh: "brk s \<notin> set as" "cells s (brk s) = None"
    by (auto dest: repr_fresh heap_ok_fresh)
  from assms have dist: "distinct as"
    by (auto simp: repr_def dest: dll_distinct)
  show ?thesis
  proof (cases as rule: rev_cases)
    case Nil
    with assms show ?thesis
      by (auto simp: repr_def dll_def push_back_def op_defs heap_ok_def step_ok_def)
  next
    case (snoc bs b)
    with assms fresh dist show ?thesis
      by (cases vs rule: rev_cases)
         (auto simp: repr_def dll_def push_back_def op_defs heap_ok_def step_ok_def
            path_snoc path_append map_fun_upd_notin datas_Some nexts_def prevs_def
            split: option.splits dest: path_SomeD)
  qed
qed


lemma emplace_back_repr:
  assumes "repr s t as vs" "heap_ok s"
  shows "\<exists>s'. emplace_back t v s = Some s' \<and> repr s' t (as @ [brk s]) (vs @ [v]) \<and>
           brk s' = Suc (brk s) \<and> step_ok s s' t as (as @ [brk s])"
proof -
  from assms have fresh: "brk s \<notin> set as" "cells s (brk s) = None"
    by (auto dest: repr_fresh heap_ok_fresh)
  from assms have dist: "distinct as"
    by (auto simp: repr_def dest: dll_distinct)
  show ?thesis
  proof (cases as rule: rev_cases)
    case Nil
    with assms show ?thesis
      by (auto simp: repr_def dll_def emplace_back_def op_defs heap_ok_def step_ok_def)
  next
    case (snoc bs b)
    with assms fresh dist show ?thesis
      by (cases vs rule: rev_cases)
         (auto simp: repr_def dll_def emplace_back_def op_defs heap_ok_def step_ok_def
            path_snoc path_append map_fun_upd_notin datas_Some nexts_def prevs_def
            split: option.splits dest: path_SomeD)
  qed
qed

lemma push_front_repr:
  assumes "repr s t as vs" "heap_ok s"
  shows "\<exists>s'. push_front t v s = Some s' \<and> repr s' t (brk s # as) (v # vs) \<and>
           brk s' = Suc (brk s) \<and> step_ok s s' t as (brk s # as)"
proof -
  from assms have fresh: "brk s \<notin> set as" "cells s (brk s) = None"
    by (auto dest: repr_fresh heap_ok_fresh)
  from assms have dist: "distinct as"
    by (auto simp: repr_def dest: dll_distinct)
  show ?thesis
  proof (cases as)
    case Nil
    with assms show ?thesis
      by (auto simp: repr_def dll_def push_front_def op_defs heap_ok_def step_ok_def)
  next
    case (Cons b bs)
    with assms fresh dist show ?thesis
      by (cases vs)
         (auto simp: repr_def dll_def push_front_def op_defs heap_ok_def step_ok_def
            path_snoc path_append map_fun_upd_notin datas_Some nexts_def prevs_def
            split: option.splits dest: path_SomeD)
  qed
qed

lemma emplace_front_eq: "emplace_front t v s = push_front t v s"
  by (simp add: emplace_front_def push_front_def)


lemma first_simps [simp]: "first [] = None" "first (a # as) = Some a"
  by (simp_all add: first_def)

lemma ex_SomeI: "(case m of None \<Rightarrow> False | Some x \<Rightarrow> P x) \<Longrightarrow> \<exists>x. m = Some x \<and> P x"
  by (cases m) auto

lemma ex_Some_pairI:
  "(case m of None \<Rightarrow> False | Some (x, y) \<Rightarrow> x = a \<and> P y) \<Longrightarrow> \<exists>y. m = Some (a, y) \<and> P y"
  by (cases m) auto

lemma insert_node_repr:
  assumes "repr s t (xs @ ys) (vxs @ vys)" "length vxs = length xs" "heap_ok s"
  shows "\<exists>s'. insert_node t (first ys) v s = Some (Some (brk s), s') \<and>
           repr s' t (xs @ brk s # ys) (vxs @ v # vys) \<and>
           brk s' = Suc (brk s) \<and> step_ok s s' t (xs @ ys) (xs @ brk s # ys)"
proof -
  from assms have fresh: "brk s \<notin> set (xs @ ys)" "cells s (brk s) = None"
    by (auto dest: repr_fresh heap_ok_fresh)
  from assms(1) have dist: "distinct (xs @ ys)"
    by (rule repr_distinct)
  from repr_length[OF assms(1)] assms(2) have len: "length vys = length ys"
    by simp
  from assms(3) have lt: "\<And>a n. cells s a = Some n \<Longrightarrow> a < Suc (brk s)"
    by (auto dest: heap_okD)
  note hyps = assms(1,2) fresh dist
  show ?thesis
  proof (cases ys)
    case Nil
    note ys = this
    show ?thesis
    proof (cases xs rule: rev_cases)
      case Nil
      with ys hyps show ?thesis
        by (intro ex_Some_pairI) (auto simp: repr_def dll_def insert_node_def op_defs Let_def heap_ok_def step_ok_def intro: lt)
    next
      case (snoc bs b)
      with ys hyps show ?thesis
        by (cases vxs rule: rev_cases)
           (rule ex_Some_pairI, auto simp: repr_def dll_def insert_node_def op_defs Let_def heap_ok_def step_ok_def
              path_snoc path_append map_fun_upd_notin datas_Some nexts_def prevs_def
              split: option.splits if_splits dest: path_SomeD intro: lt)
    qed
  next
    case (Cons c cs)
    note ys = this
    with len obtain vc vcs where vys: "vys = vc # vcs"
      by (cases vys) auto
    show ?thesis
    proof (cases xs rule: rev_cases)
      case Nil
      with ys vys hyps show ?thesis
        by (intro ex_Some_pairI) (auto simp: repr_def dll_def insert_node_def op_defs Let_def heap_ok_def step_ok_def
              path_snoc path_append map_fun_upd_notin datas_Some nexts_def prevs_def
              split: option.splits if_splits dest: path_SomeD intro: lt)
    next
      case (snoc bs b)
      with repr_head[OF assms(1)] have "head (objs s t) = Some (hd xs)"
        by (simp add: hd_append)
      moreover have "hd xs \<in> set xs"
        using snoc by (intro hd_in_set) simp
      ultimately have "head (objs s t) \<noteq> Some c"
        using dist ys by auto
      with snoc ys vys hyps show ?thesis
        apply (cases vxs rule: rev_cases)
        apply (rule_tac [!] ex_Some_pairI)
        apply (auto simp: repr_def dll_def insert_node_def op_defs Let_def heap_ok_def step_ok_def
              path_snoc path_append map_fun_upd_notin datas_Some nexts_def prevs_def
              split: option.splits if_splits dest: path_SomeD intro: lt)
        done
    qed
  qed
qed


lemma erase_end: "erase t None s = Some (None, s)"
  by (simp add: erase_def end_it_def)

lemma erase_repr:
  assumes "repr s t (xs @ c # ys) (vxs @ vc # vys)" "length vxs = length xs" "heap_ok s"
  shows "\<exists>s'. erase t (Some c) s = Some (first ys, s') \<and>
           repr s' t (xs @ ys) (vxs @ vys) \<and> cells s' c = None \<and>
           brk s' = brk s \<and> step_ok s s' t (xs @ c # ys) (xs @ ys)"
proof -
  from assms(1) have dist: "distinct (xs @ c # ys)"
    by (rule repr_distinct)
  from repr_length[OF assms(1)] assms(2) have len: "length vys = length ys"
    by simp
  from assms(3) have lt: "\<And>a n. cells s a = Some n \<Longrightarrow> a < brk s"
    by (auto dest: heap_okD)
  note hyps = assms(1,2) dist
  show ?thesis
  proof (cases xs rule: rev_cases)
    case Nil
    note xs = this
    show ?thesis
    proof (cases ys)
      case Nil
      with xs hyps len show ?thesis
        by (intro ex_Some_pairI)
           (auto simp: repr_def dll_def erase_def op_defs Let_def heap_ok_def step_ok_def
              path_snoc path_append map_fun_upd_notin datas_Some nexts_def prevs_def
              split: option.splits if_splits dest: path_SomeD intro: lt)
    next
      case (Cons d ds)
      with len obtain vd vds where "vys = vd # vds"
        by (cases vys) auto
      with Cons xs hyps show ?thesis
        by (intro ex_Some_pairI)
           (auto simp: repr_def dll_def erase_def op_defs Let_def heap_ok_def step_ok_def
              path_snoc path_append map_fun_upd_notin datas_Some nexts_def prevs_def
              split: option.splits if_splits dest: path_SomeD intro: lt)
    qed
  next
    case (snoc bs b)
    note xs = this
    with repr_head[OF assms(1)] have "head (objs s t) = Some (hd xs)"
      by (simp add: hd_append)
    moreover have "hd xs \<in> set xs"
      using snoc by (intro hd_in_set) simp
    ultimately have hd_ne: "head (objs s t) \<noteq> Some c"
      using dist by auto
    from xs assms(2) obtain vbs vb where vxs: "vxs = vbs @ [vb]"
      by (cases vxs rule: rev_cases) auto
    show ?thesis
    proof (cases ys)
      case Nil
      with xs vxs hyps len hd_ne show ?thesis
        by (intro ex_Some_pairI)
           (auto simp: repr_def dll_def erase_def op_defs Let_def heap_ok_def step_ok_def
              path_snoc path_append map_fun_upd_notin datas_Some nexts_def prevs_def
              split: option.splits if_splits dest: path_SomeD intro: lt)
    next
      case (Cons d ds)
      with len obtain vd vds where vys: "vys = vd # vds"
        by (cases vys) auto
      from repr_tail[OF assms(1)] Cons have "tail (objs s t) = Some (last ys)"
        by simp
      moreover have "last ys \<in> set ys"
        using Cons by (intro last_in_set) simp
      ultimately have tl_ne: "tail (objs s t) \<noteq> Some c"
        using dist by auto
      from Cons vys xs vxs hyps hd_ne tl_ne show ?thesis
        by (intro ex_Some_pairI)
           (auto simp: repr_def dll_def erase_def op_defs Let_def heap_ok_def step_ok_def
              path_snoc path_append map_fun_upd_notin datas_Some nexts_def prevs_def
              split: option.splits if_splits dest: path_SomeD intro: lt)
    qed
  qed
qed


lemma pop_back_empty: "head (objs s t) = None \<Longrightarrow> pop_back t s = Some s"
  by (simp add: pop_back_def)

lemma pop_back_repr:
  assumes "repr s t (bs @ [b]) (vbs @ [vb])" "heap_ok s"
  shows "\<exists>s'. pop_back t s = Some s' \<and> repr s' t bs vbs \<and> cells s' b = None \<and>
           brk s' = brk s \<and> step_ok s s' t (bs @ [b]) bs"
proof -
  from assms(1) have dist: "distinct (bs @ [b])"
    by (rule repr_distinct)
  from repr_length[OF assms(1)] have len: "length vbs = length bs"
    by simp
  from assms(2) have lt: "\<And>a n. cells s a = Some n \<Longrightarrow> a < brk s"
    by (auto dest: heap_okD)
  from repr_head[OF assms(1)] have hd: "head (objs s t) \<noteq> None"
    by simp
  show ?thesis
  proof (cases bs rule: rev_cases)
    case Nil
    with assms(1) dist len hd show ?thesis
      by (intro ex_SomeI)
         (auto simp: repr_def dll_def pop_back_def op_defs Let_def heap_ok_def step_ok_def
            path_snoc path_append map_fun_upd_notin datas_Some nexts_def prevs_def
            split: option.splits if_splits dest: path_SomeD intro: lt)
  next
    case (snoc cs c)
    with len obtain vcs vc where "vbs = vcs @ [vc]"
      by (cases vbs rule: rev_cases) auto
    with snoc assms(1) dist hd show ?thesis
      by (intro ex_SomeI)
         (auto simp: repr_def dll_def pop_back_def op_defs Let_def heap_ok_def step_ok_def
            path_snoc path_append map_fun_upd_notin datas_Some nexts_def prevs_def
            split: option.splits if_splits dest: path_SomeD intro: lt)
  qed
qed

lemma pop_front_empty: "head (objs s t) = None \<Longrightarrow> pop_front t s = Some s"
  by (simp add: pop_front_def)

lemma pop_front_repr:
  assumes "repr s t (b # bs) (vb # vbs)" "heap_ok s"
  shows "\<exists>s'. pop_front t s = Some s' \<and> repr s' t bs vbs \<and> cells s' b = None \<and>
           brk s' = brk s \<and> step_ok s s' t (b # bs) bs"
proof -
  from assms(1) have dist: "distinct (b # bs)"
    by (rule repr_distinct)
  from repr_length[OF assms(1)] have len: "length vbs = length bs"
    by simp
  from assms(2) have lt: "\<And>a n. cells s a = Some n \<Longrightarrow> a < brk s"
    by (auto dest: heap_okD)
  from repr_head[OF assms(1)] have hd: "head (objs s t) \<noteq> None"
    by simp
  show ?thesis
  proof (cases bs)
    case Nil
    with assms(1) dist len hd show ?thesis
      by (intro ex_SomeI)
         (auto simp: repr_def dll_def pop_front_def op_defs Let_def heap_ok_def step_ok_def
            path_snoc path_append map_fun_upd_notin datas_Some nexts_def prevs_def
            split: option.splits if_splits dest: path_SomeD intro: lt)
  next
    case (Cons c cs)
    with len obtain vc vcs where "vbs = vc # vcs"
      by (cases vbs) auto
    with Cons assms(1) dist hd show ?thesis
      by (intro ex_SomeI)
         (auto simp: repr_def dll_def pop_front_def op_defs Let_def heap_ok_def step_ok_def
            path_snoc path_append map_fun_upd_notin datas_Some nexts_def prevs_def
            split: option.splits if_splits dest: path_SomeD intro: lt)
  qed
qed

lemma clear_loop_path:
  assumes "path (nexts (cells s)) p as None"
  shows "\<exists>s'. clear_loop p s = Some s' \<and> objs s' = objs s \<and> brk s' = brk s \<and>
           cells s' = (\<lambda>a. if a \<in> set as then None else cells s a)"
  using assms
proof (induction as arbitrary: p s)
  case Nil
  then show ?case
    by (subst clear_loop.simps) simp
next
  case (Cons a as)
  from Cons.prems obtain r where r: "p = Some a" "nexts (cells s) a = Some r"
      "path (nexts (cells s)) r as None"
    by (auto split: option.splits)
  then obtain n where n: "p = Some a" "cells s a = Some n" "path (nexts (cells s)) (next n) as None"
    by (auto simp: nexts_def[of _ a])
  then have "a \<notin> set as"
    by (intro path_hd_notin_tl[of "nexts (cells s)" a "next n"]) (auto simp: nexts_def)
  with n have "path (nexts (cells (s\<lparr>cells := (cells s)(a := None)\<rparr>))) (next n) as None"
    by simp
  from Cons.IH[OF this] n show ?case
    by (subst clear_loop.simps) (auto simp: op_defs fun_eq_iff)
qed

lemma clear_repr:
  assumes "repr s t as vs" "heap_ok s"
  shows "\<exists>s'. clear t s = Some s' \<and> repr s' t [] [] \<and>
           brk s' = brk s \<and> step_ok s s' t as []"
proof -
  from assms(1) have "path (nexts (cells s)) (head (objs s t)) as None"
    by (simp add: repr_def dll_def)
  from clear_loop_path[OF this] assms(2) show ?thesis
    by (auto simp: clear_def repr_def dll_def op_defs heap_ok_def step_ok_def)
qed

section \<open>Loops over a well-formed list\<close>

lemma step_ok_trans:
  assumes "step_ok s s' t as as'" "step_ok s' s'' t as' as''"
  shows "step_ok s s'' t as as''"
proof -
  have "cells s'' a = cells s a" if "a < brk s" "a \<notin> set as" for a
  proof -
    from that assms(1) have "a < brk s'" "a \<notin> set as'" "cells s' a = cells s a"
      by (auto simp: step_ok_def)
    with assms(2) show ?thesis
      by (simp add: step_ok_def)
  qed
  moreover have "set as'' \<subseteq> set as \<union> {brk s..<brk s''}"
  proof
    fix a assume "a \<in> set as''"
    with assms(2) have "a \<in> set as' \<or> (brk s' \<le> a \<and> a < brk s'')"
      by (auto simp: step_ok_def)
    with assms show "a \<in> set as \<union> {brk s..<brk s''}"
      by (auto simp: step_ok_def)
  qed
  moreover from assms have "heap_ok s''" "brk s \<le> brk s''"
      "\<forall>u. u \<noteq> t \<longrightarrow> objs s'' u = objs s u"
    by (auto simp: step_ok_def)
  ultimately show ?thesis
    by (simp add: step_ok_def)
qed

lemma step_ok_refl: "heap_ok s \<Longrightarrow> step_ok s s t as as"
  by (simp add: step_ok_def)

lemma forward_path:
  "path (nexts (cells s)) p as None \<Longrightarrow> map (datas (cells s)) as = map Some vs \<Longrightarrow>
   forward p s = Some vs"
proof (induction as arbitrary: p vs)
  case Nil
  then show ?case by (subst forward.simps) (simp add: end_it_def)
next
  case (Cons a as)
  from Cons.prems(2) obtain w ws where vs: "vs = w # ws"
    by (cases vs) auto
  from Cons.prems obtain r where r: "p = Some a" "nexts (cells s) a = Some r"
      "path (nexts (cells s)) r as None"
    by (auto split: option.splits)
  from Cons.prems(2) vs have d: "datas (cells s) a = Some w" "map (datas (cells s)) as = map Some ws"
    by auto
  from Cons.IH[OF r(3) d(2)] r d(1) vs show ?case
    by (subst forward.simps)
       (auto simp: end_it_def get_data_def get_next_def deref_def nexts_def datas_def)
qed

lemma backward_path:
  "path (prevs (cells s)) p as None \<Longrightarrow> map (datas (cells s)) as = map Some vs \<Longrightarrow>
   backward p s = Some vs"
proof (induction as arbitrary: p vs)
  case Nil
  then show ?case by (subst backward.simps) (simp add: rend_def)
next
  case (Cons a as)
  from Cons.prems(2) obtain w ws where vs: "vs = w # ws"
    by (cases vs) auto
  from Cons.prems obtain r where r: "p = Some a" "prevs (cells s) a = Some r"
      "path (prevs (cells s)) r as None"
    by (auto split: option.splits)
  from Cons.prems(2) vs have d: "datas (cells s) a = Some w" "map (datas (cells s)) as = map Some ws"
    by auto
  from Cons.IH[OF r(3) d(2)] r d(1) vs show ?case
    by (subst backward.simps)
       (auto simp: rend_def get_data_def get_prev_def deref_def prevs_def datas_def)
qed

lemma repr_forward: "repr s t as vs \<Longrightarrow> forward (begin_it t s) s = Some vs"
  by (auto simp: repr_def dll_def begin_it_def intro: forward_path)

lemma repr_backward:
  assumes "repr s t as vs"
  shows "backward (rbegin t s) s = Some (rev vs)"
proof -
  from assms have "map (datas (cells s)) as = map Some vs"
    by (simp add: repr_def dll_def)
  then have "rev (map (datas (cells s)) as) = rev (map Some vs)"
    by simp
  then have "map (datas (cells s)) (rev as) = map Some (rev vs)"
    by (simp only: rev_map)
  with assms show ?thesis
    by (auto simp: repr_def dll_def rbegin_def intro: backward_path)
qed

lemma rev_upt_Suc: "rev [b..<b + Suc n] = rev [Suc b..<Suc b + n] @ [b]"
  by (simp add: upt_conv_Cons del: upt_Suc)

lemma insert_range_repr:
  assumes "repr s t (xs @ ys) (vxs @ vys)" "length vxs = length xs" "heap_ok s"
  shows "\<exists>s'. insert_range t (first ys) src s
               = Some (first (rev [brk s..<brk s + length src] @ ys), s') \<and>
           repr s' t (xs @ rev [brk s..<brk s + length src] @ ys) (vxs @ rev src @ vys) \<and>
           heap_ok s' \<and> brk s' = brk s + length src \<and>
           step_ok s s' t (xs @ ys) (xs @ rev [brk s..<brk s + length src] @ ys)"
  using assms
proof (induction src arbitrary: s ys vys)
  case Nil
  then show ?case by (simp add: step_ok_refl)
next
  case (Cons x src)
  from insert_node_repr[OF Cons.prems, of x] obtain s1 where s1:
    "insert_node t (first ys) x s = Some (Some (brk s), s1)"
    "repr s1 t (xs @ brk s # ys) (vxs @ x # vys)" "brk s1 = Suc (brk s)"
    "step_ok s s1 t (xs @ ys) (xs @ brk s # ys)"
    by blast
  from s1(4) have ok1: "heap_ok s1"
    by (simp add: step_ok_def)
  from Cons.IH[OF s1(2) Cons.prems(2) ok1] obtain s' where s':
    "insert_range t (first (brk s # ys)) src s1
       = Some (first (rev [brk s1..<brk s1 + length src] @ brk s # ys), s')"
    "repr s' t (xs @ rev [brk s1..<brk s1 + length src] @ brk s # ys) (vxs @ rev src @ x # vys)"
    "heap_ok s'" "brk s' = brk s1 + length src"
    "step_ok s1 s' t (xs @ brk s # ys) (xs @ rev [brk s1..<brk s1 + length src] @ brk s # ys)"
    by blast
  have upt: "rev [brk s..<brk s + length (x # src)] = rev [brk s1..<brk s1 + length src] @ [brk s]"
    using rev_upt_Suc[of "brk s" "length src"] s1(3) by simp
  from s1 s' step_ok_trans[OF s1(4) s'(5)] show ?case
    unfolding upt by simp
qed

lemma insert_n_range: "insert_n t it n v s = insert_range t it (replicate n v) s"
  by (induction n arbitrary: it s) (simp_all cong: Option.bind_cong prod.case_cong)

lemma nodes_path: "path f p as None \<Longrightarrow> length as \<le> n \<Longrightarrow> nodes f n p = as"
proof (induction as arbitrary: p n)
  case Nil
  then show ?case by (cases n) auto
next
  case (Cons a as)
  then show ?case by (cases n) (auto split: option.splits)
qed

lemma valid_pos_split:
  assumes "repr s t as vs" "valid_pos t pos s"
  shows "\<exists>xs ys. as = xs @ ys \<and> pos = first ys"
proof (cases pos)
  case None
  then show ?thesis by (intro exI[of _ as] exI[of _ "[]"]) simp
next
  case (Some a)
  from assms(1) have "nodes (nexts (cells s)) (size_n (objs s t)) (head (objs s t)) = as"
    by (auto simp: repr_def dll_def intro: nodes_path)
  with assms(2) Some have "a \<in> set as"
    by (simp add: valid_pos_def)
  then obtain xs ys where "as = xs @ a # ys"
    by (auto simp: in_set_conv_decomp)
  with Some show ?thesis
    by (intro exI[of _ xs] exI[of _ "a # ys"]) simp
qed


lemma demo_pushed: "push_back_all 0 [10, 20, 30] init = Some demo"
  by (simp add: demo_def init_def empty_obj_def push_back_def op_defs fun_upd_twist
      numeral_2_eq_2 numeral_3_eq_3)

lemma demo_repr: "repr demo 0 [0, 1, 2] [10, 20, 30]"
  by (simp add: demo_def repr_def dll_def nexts_def prevs_def datas_def)

lemma demo_heap_ok: "heap_ok demo"
  by (simp add: demo_def heap_ok_def)

lemma upt_Cons_Suc: "[b..<b + Suc n] = b # [Suc b..<Suc b + n]"
  by (simp add: upt_conv_Cons del: upt_Suc)

lemma push_back_all_repr:
  assumes "repr s t as ws" "heap_ok s"
  shows "\<exists>s'. push_back_all t vs s = Some s' \<and>
           repr s' t (as @ [brk s..<brk s + length vs]) (ws @ vs) \<and>
           brk s' = brk s + length vs \<and>
           step_ok s s' t as (as @ [brk s..<brk s + length vs])"
  using assms
proof (induction vs arbitrary: s as ws)
  case Nil
  then show ?case by (simp add: step_ok_refl)
next
  case (Cons v vs)
  from push_back_repr[OF Cons.prems, of v] obtain s1 where s1:
    "push_back t v s = Some s1" "repr s1 t (as @ [brk s]) (ws @ [v])" "brk s1 = Suc (brk s)"
    "step_ok s s1 t as (as @ [brk s])"
    by blast
  from s1(4) have ok1: "heap_ok s1"
    by (simp add: step_ok_def)
  from Cons.IH[OF s1(2) ok1] obtain s' where s':
    "push_back_all t vs s1 = Some s'"
    "repr s' t ((as @ [brk s]) @ [brk s1..<brk s1 + length vs]) ((ws @ [v]) @ vs)"
    "brk s' = brk s1 + length vs"
    "step_ok s1 s' t (as @ [brk s]) ((as @ [brk s]) @ [brk s1..<brk s1 + length vs])"
    by blast
  have upt: "[brk s..<brk s + length (v # vs)] = brk s # [brk s1..<brk s1 + length vs]"
    using upt_Cons_Suc[of "brk s" "length vs"] s1(3) by simp
  from s1 s' step_ok_trans[OF s1(4) s'(4)] show ?case
    unfolding upt by simp
qed

lemma append_range_repr:
  assumes "repr s t as ws" "heap_ok s"
  shows "\<exists>s'. append_range t vs s = Some s' \<and>
           repr s' t (as @ [brk s..<brk s + length vs]) (ws @ vs) \<and>
           brk s' = brk s + length vs \<and>
           step_ok s s' t as (as @ [brk s..<brk s + length vs])"
  using assms
proof (induction vs arbitrary: s as ws)
  case Nil
  then show ?case by (simp add: step_ok_refl)
next
  case (Cons v vs)
  from emplace_back_repr[OF Cons.prems, of v] obtain s1 where s1:
    "emplace_back t v s = Some s1" "repr s1 t (as @ [brk s]) (ws @ [v])" "brk s1 = Suc (brk s)"
    "step_ok s s1 t as (as @ [brk s])"
    by blast
  from s1(4) have ok1: "heap_ok s1"
    by (simp add: step_ok_def)
  from Cons.IH[OF s1(2) ok1] obtain s' where s':
    "append_range t vs s1 = Some s'"
    "repr s' t ((as @ [brk s]) @ [brk s1..<brk s1 + length vs]) ((ws @ [v]) @ vs)"
    "brk s' = brk s1 + length vs"
    "step_ok s1 s' t (as @ [brk s]) ((as @ [brk s]) @ [brk s1..<brk s1 + length vs])"
    by blast
  have upt: "[brk s..<brk s + length (v # vs)] = brk s # [brk s1..<brk s1 + length vs]"
    using upt_Cons_Suc[of "brk s" "length vs"] s1(3) by simp
  from s1 s' step_ok_trans[OF s1(4) s'(4)] show ?case
    unfolding upt by simp
qed

lemma emplace_front_all_repr:
  assumes "repr s t as ws" "heap_ok s"
  shows "\<exists>s'. emplace_front_all t vs s = Some s' \<and>
           repr s' t (rev [brk s..<brk s + length vs] @ as) (rev vs @ ws) \<and>
           brk s' = brk s + length vs \<and>
           step_ok s s' t as (rev [brk s..<brk s + length vs] @ as)"
  using assms
proof (induction vs arbitrary: s as ws)
  case Nil
  then show ?case by (simp add: step_ok_refl)
next
  case (Cons v vs)
  from push_front_repr[OF Cons.prems, of v] obtain s1 where s1:
    "emplace_front t v s = Some s1" "repr s1 t (brk s # as) (v # ws)" "brk s1 = Suc (brk s)"
    "step_ok s s1 t as (brk s # as)"
    by (auto simp: emplace_front_eq)
  from s1(4) have ok1: "heap_ok s1"
    by (simp add: step_ok_def)
  from Cons.IH[OF s1(2) ok1] obtain s' where s':
    "emplace_front_all t vs s1 = Some s'"
    "repr s' t (rev [brk s1..<brk s1 + length vs] @ brk s # as) (rev vs @ v # ws)"
    "brk s' = brk s1 + length vs"
    "step_ok s1 s' t (brk s # as) (rev [brk s1..<brk s1 + length vs] @ brk s # as)"
    by blast
  have upt: "rev [brk s..<brk s + length (v # vs)] = rev [brk s1..<brk s1 + length vs] @ [brk s]"
    using rev_upt_Suc[of "brk s" "length vs"] s1(3) by simp
  from s1 s' step_ok_trans[OF s1(4) s'(4)] show ?case
    unfolding upt by simp
qed

lemma prepend_range_repr:
  assumes "repr s t as ws" "heap_ok s"
  shows "\<exists>s'. prepend_range t vs s = Some s' \<and>
           repr s' t (rev [brk s..<brk s + length vs] @ as) (vs @ ws) \<and>
           brk s' = brk s + length vs \<and>
           step_ok s s' t as (rev [brk s..<brk s + length vs] @ as)"
  using emplace_front_all_repr[OF assms, of "rev vs"] by (simp add: prepend_range_def)

lemma init_repr: "repr init t [] []"
  by (simp add: init_def repr_def dll_def empty_obj_def)

lemma init_heap_ok: "heap_ok init"
  by (simp add: init_def heap_ok_def)

section \<open>Several lists in one store\<close>

lemma repr_frame:
  assumes "repr s u bs ws" "objs s' u = objs s u" "\<And>a. a \<in> set bs \<Longrightarrow> cells s' a = cells s a"
  shows "repr s' u bs ws"
proof -
  from assms(3) have p1: "path (nexts (cells s')) p bs q = path (nexts (cells s)) p bs q" for p q
    by (intro path_cong) (simp add: nexts_def)
  from assms(3) have p2: "path (prevs (cells s')) p (rev bs) q = path (prevs (cells s)) p (rev bs) q"
    for p q
    by (intro path_cong) (simp add: prevs_def)
  from assms(3) have p3: "map (datas (cells s')) bs = map (datas (cells s)) bs"
    by (intro map_cong) (simp_all add: datas_def)
  from assms(1) show ?thesis
    unfolding repr_def dll_def p1 p2 p3 assms(2) .
qed

lemma repr_dom: "repr s t as vs \<Longrightarrow> a \<in> set as \<Longrightarrow> cells s a \<noteq> None"
  using dll_dom[of "cells s" "objs s t" as vs] by (auto simp: repr_def)

lemma step_ok_frame:
  assumes "step_ok s s' t as as'" "repr s u bs ws" "heap_ok s" "u \<noteq> t" "set bs \<inter> set as = {}"
  shows "repr s' u bs ws \<and> set bs \<inter> set as' = {}"
proof -
  have lt: "a < brk s" if "a \<in> set bs" for a
    using that assms(2,3) by (rule repr_fresh[rotated 2])
  have same: "cells s' a = cells s a" if "a \<in> set bs" for a
  proof -
    from that lt assms(5) have "a < brk s" "a \<notin> set as"
      by auto
    with assms(1) show ?thesis
      by (simp add: step_ok_def)
  qed
  from assms(1,4) have "objs s' u = objs s u"
    by (simp add: step_ok_def)
  with assms(2) same have "repr s' u bs ws"
    by (intro repr_frame[of s u bs ws s']) auto
  moreover from lt assms(1,5) have "set bs \<inter> set as' = {}"
    by (fastforce simp: step_ok_def)
  ultimately show ?thesis ..
qed

lemma wf_step:
  assumes "wf_state s A V" "repr s' t as' vs'" "step_ok s s' t (A t) as'"
  shows "wf_state s' (A(t := as')) (V(t := vs'))"
proof -
  from assms(1) have ok: "heap_ok s" and r: "\<And>u. repr s u (A u) (V u)"
    and d: "\<And>u w. u \<noteq> w \<Longrightarrow> set (A u) \<inter> set (A w) = {}"
    by (auto simp: wf_state_def)
  have fr: "repr s' u (A u) (V u) \<and> set (A u) \<inter> set as' = {}" if "u \<noteq> t" for u
    using step_ok_frame[OF assms(3) r ok that d[OF that]] .
  from assms(3) have "heap_ok s'"
    by (simp add: step_ok_def)
  moreover have "repr s' u ((A(t := as')) u) ((V(t := vs')) u)" for u
    using fr assms(2) by simp
  moreover have "set ((A(t := as')) u) \<inter> set ((A(t := as')) w) = {}" if "u \<noteq> w" for u w
    using fr d that by (auto simp: Int_commute)
  ultimately show ?thesis
    unfolding wf_state_def by blast
qed

lemma List_obj_eqI:
  "head l = head l' \<Longrightarrow> tail l = tail l' \<Longrightarrow> size_n l = size_n l' \<Longrightarrow> l = (l' :: List_obj)"
  by simp

lemma move_assign_self: "move_assign a a s = Some s"
  by (simp add: move_assign_def)

lemma move_assign_wf:
  assumes "wf_state s A V" "a \<noteq> b"
  shows "\<exists>s'. move_assign a b s = Some s' \<and> objs s' a = objs s b \<and> objs s' b = empty_obj \<and>
           wf_state s' (A(a := A b, b := [])) (V(a := V b, b := []))"
proof -
  from assms(1) have ok: "heap_ok s" and r: "\<And>u. repr s u (A u) (V u)"
    and d: "\<And>u w. u \<noteq> w \<Longrightarrow> set (A u) \<inter> set (A w) = {}"
    by (auto simp: wf_state_def)
  from clear_repr[OF r ok, of a] obtain s1 where s1:
    "clear a s = Some s1" "repr s1 a [] []" "brk s1 = brk s" "step_ok s s1 a (A a) []"
    by blast
  from wf_step[OF assms(1) s1(2,4)] have wf1: "wf_state s1 (A(a := [])) (V(a := []))" .
  then have ok1: "heap_ok s1" and r1: "\<And>u. u \<noteq> a \<Longrightarrow> repr s1 u (A u) (V u)"
    by (auto simp: wf_state_def split: if_splits)
  from s1(4) assms(2) have ob: "objs s1 b = objs s b"
    by (simp add: step_ok_def)
  define s' where "s' = s1\<lparr>objs := (objs s1)(a := objs s1 b, b := empty_obj)\<rparr>"
  from assms(2) s1(1) have mv: "move_assign a b s = Some s'"
    by (auto simp: move_assign_def s'_def Let_def set_head_def set_tail_def set_size_def
          empty_obj_def fun_eq_iff intro!: List_obj_eqI)
  have "repr s' u ((A(a := A b, b := [])) u) ((V(a := V b, b := [])) u)" for u
    using r1[of u] r1[OF assms(2)[symmetric]] assms(2)
    by (auto simp: s'_def repr_def dll_Nil empty_obj_def)
  moreover have "set ((A(a := A b, b := [])) u) \<inter> set ((A(a := A b, b := [])) w) = {}"
    if "u \<noteq> w" for u w
    using d[of u w] d[of b w] d[of u b] that by auto
  moreover from ok1 have "heap_ok s'"
    by (simp add: s'_def heap_ok_def)
  ultimately have "wf_state s' (A(a := A b, b := [])) (V(a := V b, b := []))"
    unfolding wf_state_def by blast
  moreover from assms(2) ob have "objs s' a = objs s b" "objs s' b = empty_obj"
    by (simp_all add: s'_def)
  ultimately show ?thesis
    using mv by blast
qed

lemma demo_wf: "wf_state demo ((\<lambda>_. [])(0 := [0, 1, 2])) ((\<lambda>_. [])(0 := [10, 20, 30]))"
  using demo_repr demo_heap_ok
  by (auto simp: wf_state_def repr_def dll_Nil demo_def empty_obj_def)

section \<open>Every call keeps the state well-formed\<close>

lemma path_first_eq: "path f r zs None \<Longrightarrow> r = first zs"
  by (cases zs) auto

lemma path_suffix: "path f p (xs @ zs) None \<Longrightarrow> path f (first zs) zs None"
  by (auto simp: path_append dest: path_first_eq)

lemma path_link: "path f p (xs @ c # cs) None \<Longrightarrow> f c = Some (first cs)"
  by (auto simp: path_append split: option.splits dest: path_first_eq)

lemma first_append: "ms \<noteq> [] \<Longrightarrow> first (ms @ ys) = first ms"
  by (cases ms) auto

lemma erase_range_repr:
  assumes "repr s t (xs @ ms @ ys) (vxs @ vms @ vys)" "length vxs = length xs"
    "length vms = length ms" "heap_ok s"
  shows "\<exists>s'. erase_range t (first (ms @ ys)) (first ys) s = Some (first ys, s') \<and>
           repr s' t (xs @ ys) (vxs @ vys) \<and> brk s' = brk s \<and>
           step_ok s s' t (xs @ ms @ ys) (xs @ ys)"
  using assms
proof (induction ms arbitrary: s vms)
  case Nil
  then show ?case
    by (subst erase_range.simps) (simp add: step_ok_refl)
next
  case (Cons m ms)
  from Cons.prems(3) obtain w ws where vms: "vms = w # ws" "length ws = length ms"
    by (cases vms) auto
  from Cons.prems(1) have "distinct (xs @ (m # ms) @ ys)"
    by (rule repr_distinct)
  then have ne: "Some m \<noteq> first ys"
    by (cases ys) auto
  from Cons.prems(1) vms have "repr s t (xs @ m # (ms @ ys)) (vxs @ w # (ws @ vys))"
    by simp
  from erase_repr[OF this Cons.prems(2,4)] obtain s1 where s1:
    "erase t (Some m) s = Some (first (ms @ ys), s1)"
    "repr s1 t (xs @ ms @ ys) (vxs @ ws @ vys)" "brk s1 = brk s"
    "step_ok s s1 t (xs @ m # ms @ ys) (xs @ ms @ ys)"
    by auto
  from s1(4) have ok1: "heap_ok s1"
    by (simp add: step_ok_def)
  from Cons.IH[OF s1(2) Cons.prems(2) vms(2) ok1] obtain s' where s':
    "erase_range t (first (ms @ ys)) (first ys) s1 = Some (first ys, s')"
    "repr s' t (xs @ ys) (vxs @ vys)" "brk s' = brk s1"
    "step_ok s1 s' t (xs @ ms @ ys) (xs @ ys)"
    by blast
  from ne s1(1) s'(1) have "erase_range t (first ((m # ms) @ ys)) (first ys) s = Some (first ys, s')"
    by (subst erase_range.simps) simp
  with s'(2,3) s1(3) step_ok_trans[OF s1(4) s'(4)] show ?case
    by simp
qed

lemma valid_range_split:
  assumes "repr s t as vs" "valid_range t p q s"
  shows "\<exists>xs ms ys. as = xs @ ms @ ys \<and> p = first (ms @ ys) \<and> q = first ys"
proof -
  from assms(2) have vp: "valid_pos t p s"
    by (simp add: valid_range_def)
  from valid_pos_split[OF assms(1) vp] obtain xs zs where split: "as = xs @ zs" "p = first zs"
    by blast
  show ?thesis
  proof (cases q)
    case None
    with split show ?thesis
      by (intro exI[of _ xs] exI[of _ zs] exI[of _ "[]"]) simp
  next
    case (Some b)
    from assms(1) split have "path (nexts (cells s)) (first zs) zs None"
      by (auto simp: repr_def dll_def dest: path_suffix)
    moreover from assms(1) split have "length zs \<le> size_n (objs s t)"
      by (simp add: repr_def dll_def)
    ultimately have "nodes (nexts (cells s)) (size_n (objs s t)) p = zs"
      using split(2) by (simp add: nodes_path)
    with assms(2) Some have "b \<in> set zs"
      by (simp add: valid_range_def)
    then obtain ms ys where "zs = ms @ b # ys"
      by (auto simp: in_set_conv_decomp)
    with split Some show ?thesis
      by (intro exI[of _ xs] exI[of _ ms] exI[of _ "b # ys"]) simp
  qed
qed

lemma shrink_loop_repr:
  assumes "repr s t as vs" "heap_ok s"
  shows "\<exists>s'. shrink_loop t n s = Some s' \<and> repr s' t (take n as) (take n vs) \<and>
           step_ok s s' t as (take n as)"
  using assms
proof (induction as arbitrary: s vs rule: rev_induct)
  case Nil
  then show ?case
    by (subst shrink_loop.simps) (simp add: repr_def dll_Nil step_ok_refl)
next
  case (snoc b bs)
  from snoc.prems(1) have sz: "size_n (objs s t) = Suc (length bs)"
    by (simp add: repr_def dll_def)
  from repr_length[OF snoc.prems(1)] obtain ws w where vs: "vs = ws @ [w]" "length ws = length bs"
    by (cases vs rule: rev_cases) auto
  show ?case
  proof (cases "n < Suc (length bs)")
    case True
    from snoc.prems(1) vs have "repr s t (bs @ [b]) (ws @ [w])"
      by simp
    from pop_back_repr[OF this snoc.prems(2)] obtain s1 where s1:
      "pop_back t s = Some s1" "repr s1 t bs ws" "step_ok s s1 t (bs @ [b]) bs"
      by blast
    from s1(3) have ok1: "heap_ok s1"
      by (simp add: step_ok_def)
    from snoc.IH[OF s1(2) ok1] obtain s' where s':
      "shrink_loop t n s1 = Some s'" "repr s' t (take n bs) (take n ws)"
      "step_ok s1 s' t bs (take n bs)"
      by blast
    from True sz s1(1) s'(1) have "shrink_loop t n s = Some s'"
      by (subst shrink_loop.simps) simp
    with True vs s'(2) step_ok_trans[OF s1(3) s'(3)] show ?thesis
      by simp
  next
    case False
    with sz have "shrink_loop t n s = Some s"
      by (subst shrink_loop.simps) simp
    with False vs snoc.prems show ?thesis
      by (simp add: step_ok_refl)
  qed
qed

lemma grow_loop_repr:
  assumes "repr s t as vs" "heap_ok s" "k = n - length as"
  shows "\<exists>s'. grow_loop t n v s = Some s' \<and>
           repr s' t (as @ [brk s..<brk s + k]) (vs @ replicate k v) \<and>
           step_ok s s' t as (as @ [brk s..<brk s + k])"
  using assms
proof (induction k arbitrary: s as vs)
  case 0
  then have "size_n (objs s t) \<ge> n"
    by (simp add: repr_def dll_def)
  then have "grow_loop t n v s = Some s"
    by (subst grow_loop.simps) simp
  with 0 show ?case
    by (simp add: step_ok_refl)
next
  case (Suc k)
  then have sz: "size_n (objs s t) < n"
    by (simp add: repr_def dll_def)
  from emplace_back_repr[OF Suc.prems(1,2), of v] obtain s1 where s1:
    "emplace_back t v s = Some s1" "repr s1 t (as @ [brk s]) (vs @ [v])" "brk s1 = Suc (brk s)"
    "step_ok s s1 t as (as @ [brk s])"
    by blast
  from s1(4) have ok1: "heap_ok s1"
    by (simp add: step_ok_def)
  from Suc.prems(3) have "k = n - length (as @ [brk s])"
    by simp
  from Suc.IH[OF s1(2) ok1 this] obtain s' where s':
    "grow_loop t n v s1 = Some s'"
    "repr s' t ((as @ [brk s]) @ [brk s1..<brk s1 + k]) ((vs @ [v]) @ replicate k v)"
    "step_ok s1 s' t (as @ [brk s]) ((as @ [brk s]) @ [brk s1..<brk s1 + k])"
    by blast
  from sz s1(1) s'(1) have "grow_loop t n v s = Some s'"
    by (subst grow_loop.simps) simp
  moreover have "[brk s..<brk s + Suc k] = brk s # [brk s1..<brk s1 + k]"
    using upt_Cons_Suc[of "brk s" k] s1(3) by simp
  ultimately show ?case
    using s'(2) step_ok_trans[OF s1(4) s'(3)] by (simp add: replicate_app_Cons_same)
qed

lemma resize_repr:
  assumes "repr s t as vs" "heap_ok s"
  shows "\<exists>s' as' vs'. resize t n v s = Some s' \<and> repr s' t as' vs' \<and> step_ok s s' t as as'"
proof -
  from assms(1) have sz: "size_n (objs s t) = length as"
    by (simp add: repr_def dll_def)
  consider "n < length as" | "n > length as" | "n = length as"
    by linarith
  then show ?thesis
  proof cases
    case 1
    with sz shrink_loop_repr[OF assms, of n] show ?thesis
      by (auto simp: resize_def)
  next
    case 2
    with sz grow_loop_repr[OF assms refl, of n v] show ?thesis
      by (auto simp: resize_def)
  next
    case 3
    with sz assms show ?thesis
      by (auto simp: resize_def intro: step_ok_refl)
  qed
qed

lemma push_back_n_all: "push_back_n t n v s = push_back_all t (replicate n v) s"
  by (induction n arbitrary: s) (simp_all cong: Option.bind_cong)

lemma assign_range_repr:
  assumes "repr s t as vs" "heap_ok s"
  shows "\<exists>s'. assign_range t xs s = Some s' \<and>
           repr s' t [brk s..<brk s + length xs] xs \<and>
           step_ok s s' t as [brk s..<brk s + length xs]"
proof -
  from clear_repr[OF assms] obtain s1 where s1:
    "clear t s = Some s1" "repr s1 t [] []" "brk s1 = brk s" "step_ok s s1 t as []"
    by blast
  from s1(4) have ok1: "heap_ok s1"
    by (simp add: step_ok_def)
  from push_back_all_repr[OF s1(2) ok1, of xs] obtain s' where s':
    "push_back_all t xs s1 = Some s'" "repr s' t ([] @ [brk s1..<brk s1 + length xs]) ([] @ xs)"
    "step_ok s1 s' t [] ([] @ [brk s1..<brk s1 + length xs])"
    by blast
  with s1 step_ok_trans[OF s1(4) s'(3)] show ?thesis
    by (simp add: assign_range_def)
qed

lemma assign_n_range: "assign_n t n v s = assign_range t (replicate n v) s"
  by (simp add: assign_n_def assign_range_def push_back_n_all)

lemma swap_l_objs: "swap_l t u s = s\<lparr>objs := (objs s)(t := objs s u, u := objs s t)\<rparr>"
  by (cases "t = u")
     (auto simp: swap_l_def Let_def set_head_def set_tail_def set_size_def fun_eq_iff
        intro!: List_obj_eqI)

lemma swap_l_wf:
  assumes "wf_state s A V"
  shows "wf_state (swap_l t u s) (A(t := A u, u := A t)) (V(t := V u, u := V t))"
proof -
  from assms have ok: "heap_ok s" and r: "\<And>w. repr s w (A w) (V w)"
    and d: "\<And>w x. w \<noteq> x \<Longrightarrow> set (A w) \<inter> set (A x) = {}"
    by (auto simp: wf_state_def)
  have "repr (swap_l t u s) w ((A(t := A u, u := A t)) w) ((V(t := V u, u := V t)) w)" for w
    using r[of w] r[of t] r[of u] by (auto simp: swap_l_objs repr_def)
  moreover have "set ((A(t := A u, u := A t)) w) \<inter> set ((A(t := A u, u := A t)) x) = {}"
    if "w \<noteq> x" for w x
    using d[of w x] d[of u x] d[of t x] d[of w t] d[of w u] d[of u t] d[of t u] that by auto
  moreover from ok have "heap_ok (swap_l t u s)"
    by (simp add: swap_l_objs heap_ok_def)
  ultimately show ?thesis
    unfolding wf_state_def by blast
qed


lemma copy_loop_repr:
  assumes "repr s t as vs" "repr s u (ds @ bs) (vds @ ws)" "length vds = length ds"
    "heap_ok s" "u \<noteq> t" "set (ds @ bs) \<inter> set as = {}"
  shows "\<exists>s'. copy_loop t (first bs) s = Some s' \<and>
           repr s' t (as @ [brk s..<brk s + length bs]) (vs @ ws) \<and>
           step_ok s s' t as (as @ [brk s..<brk s + length bs])"
  using assms
proof (induction bs arbitrary: s as vs ds vds ws)
  case Nil
  then have "ws = []"
    by (auto dest: repr_length)
  with Nil show ?case
    by (subst copy_loop.simps) (simp add: step_ok_refl)
next
  case (Cons c cs)
  from repr_length[OF Cons.prems(2)] Cons.prems(3) obtain w ws' where ws: "ws = w # ws'"
    by (cases ws) auto
  from Cons.prems(2,3) ws have "datas (cells s) c = Some w"
    by (auto simp: repr_def dll_def)
  then have gd: "get_data (Some c) s = Some w"
    by (simp add: get_data_def deref_def datas_def)
  from push_back_repr[OF Cons.prems(1,4), of w] obtain s1 where s1:
    "push_back t w s = Some s1" "repr s1 t (as @ [brk s]) (vs @ [w])" "brk s1 = Suc (brk s)"
    "step_ok s s1 t as (as @ [brk s])"
    by blast
  from s1(4) have ok1: "heap_ok s1"
    by (simp add: step_ok_def)
  from step_ok_frame[OF s1(4) Cons.prems(2,4,5,6)]
  have u1: "repr s1 u (ds @ c # cs) (vds @ ws)" "set (ds @ c # cs) \<inter> set (as @ [brk s]) = {}"
    by simp_all
  from u1(1) have "nexts (cells s1) c = Some (first cs)"
    by (auto simp: repr_def dll_def dest: path_link)
  then have gn: "get_next (Some c) s1 = Some (first cs)"
    by (simp add: get_next_def deref_def nexts_def)
  from u1 ws have u1': "repr s1 u ((ds @ [c]) @ cs) ((vds @ [w]) @ ws')"
      "set ((ds @ [c]) @ cs) \<inter> set (as @ [brk s]) = {}"
    by simp_all
  from Cons.prems(3) have len: "length (vds @ [w]) = length (ds @ [c])"
    by simp
  from Cons.IH[OF s1(2) u1'(1) len ok1 Cons.prems(5) u1'(2)] obtain s' where s':
    "copy_loop t (first cs) s1 = Some s'"
    "repr s' t ((as @ [brk s]) @ [brk s1..<brk s1 + length cs]) ((vs @ [w]) @ ws')"
    "step_ok s1 s' t (as @ [brk s]) ((as @ [brk s]) @ [brk s1..<brk s1 + length cs])"
    by blast
  from gd gn s1(1) s'(1) have "copy_loop t (first (c # cs)) s = Some s'"
    by (subst copy_loop.simps) simp
  moreover have "[brk s..<brk s + length (c # cs)] = brk s # [brk s1..<brk s1 + length cs]"
    using upt_Cons_Suc[of "brk s" "length cs"] s1(3) by simp
  ultimately show ?case
    using s'(2) ws step_ok_trans[OF s1(4) s'(3)] by simp
qed

lemma copy_assign_self: "copy_assign t t s = Some s"
  by (simp add: copy_assign_def)

lemma copy_assign_repr:
  assumes "repr s t as vs" "repr s u bs ws" "heap_ok s" "u \<noteq> t" "set bs \<inter> set as = {}"
  shows "\<exists>s'. copy_assign t u s = Some s' \<and>
           repr s' t [brk s..<brk s + length bs] ws \<and>
           step_ok s s' t as [brk s..<brk s + length bs]"
proof -
  from clear_repr[OF assms(1,3)] obtain s1 where s1:
    "clear t s = Some s1" "repr s1 t [] []" "brk s1 = brk s" "step_ok s s1 t as []"
    by blast
  from s1(4) have ok1: "heap_ok s1"
    by (simp add: step_ok_def)
  from step_ok_frame[OF s1(4) assms(2,3,4,5)] have u1: "repr s1 u ([] @ bs) ([] @ ws)"
    by simp
  from repr_head[OF u1] u1 have hd: "head (objs s1 u) = first bs"
    by (cases bs) (auto simp: repr_def dll_Nil)
  from copy_loop_repr[OF s1(2) u1 _ ok1 assms(4)] obtain s' where s':
    "copy_loop t (first bs) s1 = Some s'"
    "repr s' t ([] @ [brk s1..<brk s1 + length bs]) ([] @ ws)"
    "step_ok s1 s' t [] ([] @ [brk s1..<brk s1 + length bs])"
    by auto
  with s1 hd assms(4) step_ok_trans[OF s1(4) s'(3)] show ?thesis
    by (simp add: copy_assign_def)
qed

lemma repr_list_inv:
  assumes "repr s t as vs"
  shows "list_inv t s"
proof -
  from assms have pn: "path (nexts (cells s)) (head (objs s t)) as None"
    and pp: "path (prevs (cells s)) (tail (objs s t)) (rev as) None"
    and sz: "size_n (objs s t) = length as"
    by (simp_all add: repr_def dll_def)
  have link: "get_prev (Some m) s = Some (Some a)"
    if "a \<in> set as" "get_next (Some a) s = Some (Some m)" for a m
  proof -
    from that(1) obtain xs ys where as: "as = xs @ a # ys"
      by (auto simp: in_set_conv_decomp)
    with pn have "nexts (cells s) a = Some (first ys)"
      by (auto dest: path_link)
    with that(2) have "first ys = Some m"
      by (auto simp: get_next_def deref_def nexts_def)
    then obtain ys' where "ys = m # ys'"
      by (cases ys) auto
    with as pp have "path (prevs (cells s)) (tail (objs s t)) (rev ys' @ m # a # rev xs) None"
      by simp
    then have "prevs (cells s) m = Some (first (a # rev xs))"
      by (rule path_link)
    then show ?thesis
      by (simp add: get_prev_def deref_def prevs_def)
  qed
  have ht: "head (objs s t) = None \<longleftrightarrow> tail (objs s t) = None"
    using assms by (simp add: repr_def dll_head_None dll_tail_None)
  have ends: "get_prev (head (objs s t)) s = Some None \<and> get_next (tail (objs s t)) s = Some None"
    if "head (objs s t) \<noteq> None"
  proof -
    from that assms have ne: "as \<noteq> []"
      by (auto simp: repr_def dll_Nil)
    then obtain a as' where a: "as = a # as'"
      by (cases as) auto
    with pp have "prevs (cells s) a = Some None"
      by (simp add: path_snoc)
    with a repr_head[OF assms ne] have "get_prev (head (objs s t)) s = Some None"
      by (simp add: get_prev_def deref_def prevs_def)
    moreover from ne obtain bs b where b: "as = bs @ [b]"
      by (cases as rule: rev_cases) auto
    with pn have "nexts (cells s) b = Some None"
      by (simp add: path_snoc)
    with b repr_tail[OF assms ne] have "get_next (tail (objs s t)) s = Some None"
      by (simp add: get_next_def deref_def nexts_def)
    ultimately show ?thesis ..
  qed
  from pn sz link ht ends show ?thesis
    unfolding list_inv_def by blast
qed


lemma wf_single:
  assumes "wf_state s A V"
    "\<exists>s' as' vs'. m = Some s' \<and> repr s' t as' vs' \<and> step_ok s s' t (A t) as'"
  shows "wf_result (map_option Inr m)"
proof -
  from assms(2) obtain s' as' vs' where "m = Some s'" "repr s' t as' vs'"
      "step_ok s s' t (A t) as'"
    by blast
  with wf_step[OF assms(1) this(2,3)] show ?thesis
    by (auto simp: wf_result_def)
qed

lemma wf_single_it:
  assumes "wf_state s A V"
    "\<exists>it s' as' vs'. m = Some (it, s') \<and> repr s' t as' vs' \<and> step_ok s s' t (A t) as'"
  shows "wf_result (map_option (\<lambda>r. Inr (snd r)) m)"
proof -
  from assms(2) obtain it s' as' vs' where "m = Some (it, s')" "repr s' t as' vs'"
      "step_ok s s' t (A t) as'"
    by blast
  with wf_step[OF assms(1) this(2,3)] show ?thesis
    by (auto simp: wf_result_def)
qed

lemma repr_split_vals:
  assumes "repr s t (xs @ ys) vs"
  shows "\<exists>vxs vys. vs = vxs @ vys \<and> length vxs = length xs \<and> length vys = length ys"
  using repr_length[OF assms]
  by (intro exI[of _ "take (length xs) vs"] exI[of _ "drop (length xs) vs"]) auto

lemma insert_range_pos:
  assumes "repr s t as vs" "heap_ok s" "valid_pos t pos s"
  shows "\<exists>it s' as' vs'. insert_range t pos src s = Some (it, s') \<and> repr s' t as' vs' \<and>
           step_ok s s' t as as'"
proof -
  from valid_pos_split[OF assms(1,3)] obtain xs ys where split: "as = xs @ ys" "pos = first ys"
    by blast
  with assms(1) repr_split_vals[of s t xs ys vs] obtain vxs vys where
    "repr s t (xs @ ys) (vxs @ vys)" "length vxs = length xs"
    by auto
  from insert_range_repr[OF this assms(2), of src] split show ?thesis
    by blast
qed

lemma insert_node_pos:
  assumes "repr s t as vs" "heap_ok s" "valid_pos t pos s"
  shows "\<exists>it s' as' vs'. insert_node t pos v s = Some (it, s') \<and> repr s' t as' vs' \<and>
           step_ok s s' t as as'"
proof -
  from valid_pos_split[OF assms(1,3)] obtain xs ys where split: "as = xs @ ys" "pos = first ys"
    by blast
  with assms(1) repr_split_vals[of s t xs ys vs] obtain vxs vys where
    "repr s t (xs @ ys) (vxs @ vys)" "length vxs = length xs"
    by auto
  from insert_node_repr[OF this assms(2), of v] split show ?thesis
    by blast
qed

lemma erase_range_pos:
  assumes "repr s t as vs" "heap_ok s" "valid_range t p q s"
  shows "\<exists>it s' as' vs'. erase_range t p q s = Some (it, s') \<and> repr s' t as' vs' \<and>
           step_ok s s' t as as'"
proof -
  from valid_range_split[OF assms(1,3)] obtain xs ms ys where
    split: "as = xs @ ms @ ys" "p = first (ms @ ys)" "q = first ys"
    by blast
  with assms(1) repr_split_vals[of s t xs "ms @ ys" vs] obtain vxs vzs where
    v1: "vs = vxs @ vzs" "length vxs = length xs" "length vzs = length (ms @ ys)"
    by auto
  define vms vys where "vms = take (length ms) vzs" and "vys = drop (length ms) vzs"
  with v1 have "vzs = vms @ vys" "length vms = length ms"
    by auto
  with assms(1) split v1 have "repr s t (xs @ ms @ ys) (vxs @ vms @ vys)"
    by simp
  from erase_range_repr[OF this v1(2) \<open>length vms = length ms\<close> assms(2)] split show ?thesis
    by blast
qed

lemma erase_pos:
  assumes "repr s t as vs" "heap_ok s" "valid_pos t pos s"
  shows "\<exists>it s' as' vs'. erase t pos s = Some (it, s') \<and> repr s' t as' vs' \<and>
           step_ok s s' t as as'"
proof (cases pos)
  case None
  with assms(1,2) show ?thesis
    by (auto simp: erase_end intro: step_ok_refl)
next
  case (Some c)
  from valid_pos_split[OF assms(1,3)] Some obtain xs ys where split: "as = xs @ c # ys"
    by (metis first_def list.case_eq_if list.collapse option.discI option.inject)
  with assms(1) repr_split_vals[of s t xs "c # ys" vs] obtain vxs vzs where
    v1: "vs = vxs @ vzs" "length vxs = length xs" "length vzs = length (c # ys)"
    by auto
  then obtain vc vys where "vzs = vc # vys"
    by (cases vzs) auto
  with assms(1) split v1 have "repr s t (xs @ c # ys) (vxs @ vc # vys)"
    by simp
  from erase_repr[OF this v1(2) assms(2)] split Some show ?thesis
    by blast
qed

lemma pop_back_any:
  assumes "repr s t as vs" "heap_ok s"
  shows "\<exists>s' as' vs'. pop_back t s = Some s' \<and> repr s' t as' vs' \<and> step_ok s s' t as as'"
proof (cases as rule: rev_cases)
  case Nil
  with assms(1) have "head (objs s t) = None"
    by (simp add: repr_def dll_Nil)
  then have "pop_back t s = Some s"
    by (rule pop_back_empty)
  with assms step_ok_refl[OF assms(2), of t as] show ?thesis
    by blast
next
  case (snoc bs b)
  with repr_length[OF assms(1)] obtain ws w where "vs = ws @ [w]"
    by (cases vs rule: rev_cases) auto
  with assms(1) snoc have "repr s t (bs @ [b]) (ws @ [w])"
    by simp
  from pop_back_repr[OF this assms(2)] snoc show ?thesis
    by blast
qed

lemma pop_front_any:
  assumes "repr s t as vs" "heap_ok s"
  shows "\<exists>s' as' vs'. pop_front t s = Some s' \<and> repr s' t as' vs' \<and> step_ok s s' t as as'"
proof (cases as)
  case Nil
  with assms(1) have "head (objs s t) = None"
    by (simp add: repr_def dll_Nil)
  then have "pop_front t s = Some s"
    by (rule pop_front_empty)
  with assms step_ok_refl[OF assms(2), of t as] show ?thesis
    by blast
next
  case (Cons b bs)
  with repr_length[OF assms(1)] obtain w ws where "vs = w # ws"
    by (cases vs) auto
  with assms(1) Cons have "repr s t (b # bs) (w # ws)"
    by simp
  from pop_front_repr[OF this assms(2)] Cons show ?thesis
    by blast
qed

lemma front_total:
  assumes "repr s t as vs"
  shows "\<exists>r. front t s = Some r"
  using assms repr_head[OF assms] repr_dom[OF assms, of "hd as"]
  by (cases as) (auto simp: front_def get_data_def deref_def repr_def dll_Nil)

lemma back_total:
  assumes "repr s t as vs"
  shows "\<exists>r. back_l t s = Some r"
  using assms repr_tail[OF assms] repr_dom[OF assms, of "last as"]
  by (cases as rule: rev_cases) (auto simp: back_l_def get_data_def deref_def repr_def dll_Nil)


lemma returned_wf:
  assumes "wf_state s A V" "\<exists>r. m = Some r"
  shows "wf_result (map_option (returned s) m)"
proof -
  from assms(2) obtain r where "m = Some r"
    by blast
  with assms(1) show ?thesis
    by (cases r) (auto simp: wf_result_def returned_def)
qed

lemma exec_wf:
  assumes "wf_state s A V" "valid_op c s"
  shows "wf_result (exec c s)"
proof -
  from assms(1) have ok: "heap_ok s" and r: "\<And>u. repr s u (A u) (V u)"
    and d: "\<And>u w. u \<noteq> w \<Longrightarrow> set (A u) \<inter> set (A w) = {}"
    by (auto simp: wf_state_def)
  note single = wf_single[OF assms(1)] and single_it = wf_single_it[OF assms(1)]
  show ?thesis
  proof (cases c)
    case (Push_back t v)
    from push_back_repr[OF r ok, of t v] show ?thesis
      unfolding Push_back exec.simps by (intro single) blast
  next
    case (Emplace_back t v)
    from emplace_back_repr[OF r ok, of t v] show ?thesis
      unfolding Emplace_back exec.simps by (intro single) blast
  next
    case (Push_front t v)
    from push_front_repr[OF r ok, of t v] show ?thesis
      unfolding Push_front exec.simps by (intro single) blast
  next
    case (Emplace_front t v)
    from push_front_repr[OF r ok, of t v] show ?thesis
      unfolding Emplace_front exec.simps emplace_front_eq by (intro single) blast
  next
    case (Insert t pos v)
    with assms(2) have "valid_pos t pos s"
      by simp
    from insert_node_pos[OF r ok this, of v] show ?thesis
      unfolding Insert exec.simps by (intro single_it)
  next
    case (Insert_n t pos n v)
    with assms(2) have "valid_pos t pos s"
      by simp
    from insert_range_pos[OF r ok this, of "replicate n v"] show ?thesis
      unfolding Insert_n exec.simps insert_n_range by (intro single_it)
  next
    case (Insert_range t pos xs)
    with assms(2) have "valid_pos t pos s"
      by simp
    from insert_range_pos[OF r ok this, of xs] show ?thesis
      unfolding Insert_range exec.simps by (intro single_it)
  next
    case (Erase t pos)
    with assms(2) have "valid_pos t pos s"
      by simp
    from erase_pos[OF r ok this] show ?thesis
      unfolding Erase exec.simps by (intro single_it)
  next
    case (Erase_range t p q)
    with assms(2) have "valid_range t p q s"
      by simp
    from erase_range_pos[OF r ok this] show ?thesis
      unfolding Erase_range exec.simps by (intro single_it)
  next
    case (Pop_back t)
    from pop_back_any[OF r ok, of t] show ?thesis
      unfolding Pop_back exec.simps by (intro single)
  next
    case (Pop_front t)
    from pop_front_any[OF r ok, of t] show ?thesis
      unfolding Pop_front exec.simps by (intro single)
  next
    case (Clear t)
    from clear_repr[OF r ok, of t] show ?thesis
      unfolding Clear exec.simps by (intro single) blast
  next
    case (Resize t n v)
    from resize_repr[OF r ok, of t n v] show ?thesis
      unfolding Resize exec.simps by (intro single)
  next
    case (Swap t u)
    from swap_l_wf[OF assms(1), of t u] show ?thesis
      unfolding Swap exec.simps by (auto simp: wf_result_def)
  next
    case (Move_assign t u)
    show ?thesis
    proof (cases "t = u")
      case True
      with assms(1) show ?thesis
        unfolding Move_assign exec.simps by (auto simp: wf_result_def move_assign_self)
    next
      case False
      from move_assign_wf[OF assms(1) this] show ?thesis
        unfolding Move_assign exec.simps wf_result_def by fastforce
    qed
  next
    case (Copy_assign t u)
    show ?thesis
    proof (cases "t = u")
      case True
      with assms(1) show ?thesis
        unfolding Copy_assign exec.simps by (auto simp: wf_result_def copy_assign_self)
    next
      case False
      then have "u \<noteq> t"
        by simp
      from copy_assign_repr[OF r r ok this d[OF this]] show ?thesis
        unfolding Copy_assign exec.simps by (intro single) blast
    qed
  next
    case (Assign_range t xs)
    from assign_range_repr[OF r ok, of t xs] show ?thesis
      unfolding Assign_range exec.simps by (intro single) blast
  next
    case (Assign_n t n v)
    from assign_range_repr[OF r ok, of t "replicate n v"] show ?thesis
      unfolding Assign_n exec.simps assign_n_range by (intro single) blast
  next
    case (Append_range t xs)
    from append_range_repr[OF r ok, of t xs] show ?thesis
      unfolding Append_range exec.simps by (intro single) blast
  next
    case (Prepend_range t xs)
    from prepend_range_repr[OF r ok, of t xs] show ?thesis
      unfolding Prepend_range exec.simps by (intro single) blast
  next
    case (Front t)
    from front_total[OF r, of t] show ?thesis
      unfolding Front exec.simps by (rule returned_wf[OF assms(1)])
  next
    case (Back t)
    from back_total[OF r, of t] show ?thesis
      unfolding Back exec.simps by (rule returned_wf[OF assms(1)])
  qed
qed

lemma run_wf:
  assumes "wf_state s A V" "valid_run cs s"
  shows "\<exists>s' A' V'. run cs s = Some s' \<and> wf_state s' A' V'"
  using assms
proof (induction cs arbitrary: s A V)
  case Nil
  then show ?case by auto
next
  case (Cons c cs)
  from Cons.prems(2) have v: "valid_op c s"
    by simp
  from exec_wf[OF Cons.prems(1) v] obtain r where r: "exec c s = Some r"
      "case r of Inl e \<Rightarrow> True | Inr s' \<Rightarrow> \<exists>A' V'. wf_state s' A' V'"
    by (auto simp: wf_result_def)
  show ?case
  proof (cases r)
    case (Inl e)
    with r Cons.prems(2) have "valid_run cs s" "run (c # cs) s = run cs s"
      by simp_all
    with Cons.IH[OF Cons.prems(1)] show ?thesis
      by simp
  next
    case (Inr s1)
    with r obtain A1 V1 where "wf_state s1 A1 V1"
      by auto
    moreover from Inr r Cons.prems(2) have "valid_run cs s1" "run (c # cs) s = run cs s1"
      by simp_all
    ultimately show ?thesis
      using Cons.IH by simp
  qed
qed

lemma init_wf: "wf_state init (\<lambda>_. []) (\<lambda>_. [])"
  by (simp add: wf_state_def init_repr init_heap_ok)

lemma demo_calls_valid: "valid_run demo_calls init"
  by (simp add: demo_calls_def init_def empty_obj_def push_back_def insert_node_def erase_def
        pop_back_def pop_front_def swap_l_def front_def resize_def emplace_back_def
        erase_range.simps grow_loop.simps shrink_loop.simps
        op_defs Let_def valid_pos_def valid_range_def nexts_def end_it_def returned_def
        eval_nat_numeral)

lemma stray_run: "run stray_calls init = Some stray_state"
  by (simp add: stray_calls_def stray_state_def init_def empty_obj_def push_back_def erase_def
        op_defs Let_def fun_eq_iff)

lemma stray_no_run: "\<not> valid_run stray_calls init"
  by (simp add: stray_calls_def init_def empty_obj_def push_back_def
        op_defs Let_def valid_pos_def)

lemma push_back_in_room:
  "finite (dom (cells s)) \<Longrightarrow> card (dom (cells s)) < cap \<Longrightarrow>
   push_back_in cap t v s = map_option Inr (push_back t v s)"
  by (simp add: push_back_in_def new_Node_in_def)

section \<open>The claims\<close>

text \<open>
  C1. Source order of the range insert. On the list 10, 20, 30,
  \<open>insert(begin(), first, last)\<close> with the source range 1, 2 returns and leaves the list
  2, 1, 10, 20, 30: the loop inserts each element before the node it inserted just before, so
  a range of two or more elements arrives reversed, where the specification has it in source
  order (1, 2, 10, 20, 30).
\<close>

theorem range_insert_reverses:
  "\<exists>it s'. insert_range 0 (begin_it 0 demo) [1, 2] demo = Some (it, s') \<and>
      forward (begin_it 0 s') s' = Some [2, 1, 10, 20, 30]"
  by (simp add: demo_def insert_node_def op_defs begin_it_def forward.simps end_it_def Let_def)

text \<open>
  C2. For a well-formed list, a position \<open>pos\<close> of this list (the end iterator or an
  iterator to one of its nodes) and a count \<open>n\<close> of at least 1, \<open>insert(pos, n, v)\<close>
  returns and allocates \<open>n\<close> new nodes \<open>new\<close>, all holding \<open>v\<close>; forward traversal
  of the resulting list meets the nodes before \<open>pos\<close>, then \<open>new\<close>, then the nodes from
  \<open>pos\<close> on; and the iterator returned points to the first node of \<open>new\<close>, the new node
  that forward traversal meets first.
\<close>

theorem insert_count_returns_first:
  assumes "repr s t as vs" "heap_ok s" "valid_pos t pos s" "1 \<le> n"
  shows "\<exists>s' xs ys new. insert_n t pos n v s = Some (Some (hd new), s') \<and>
           as = xs @ ys \<and> pos = first ys \<and> length new = n \<and>
           set new \<inter> dom (cells s) = {} \<and>
           repr s' t (xs @ new @ ys)
             (take (length xs) vs @ replicate n v @ drop (length xs) vs)"
proof -
  from valid_pos_split[OF assms(1,3)] obtain xs ys where split: "as = xs @ ys" "pos = first ys"
    by blast
  define new where "new = rev [brk s..<brk s + n]"
  from assms(4) have new: "length new = n" "new \<noteq> []" "set new = {brk s..<brk s + n}"
    by (auto simp: new_def)
  have vs: "vs = take (length xs) vs @ drop (length xs) vs"
    by simp
  from repr_length[OF assms(1)] split have len: "length (take (length xs) vs) = length xs"
    by simp
  from assms(1) split have "repr s t (xs @ ys) (take (length xs) vs @ drop (length xs) vs)"
    by simp
  from insert_range_repr[OF this len assms(2), of "replicate n v"] obtain s' where s':
    "insert_n t pos n v s = Some (first (new @ ys), s')"
    "repr s' t (xs @ new @ ys) (take (length xs) vs @ replicate n v @ drop (length xs) vs)"
    by (auto simp: insert_n_range split new_def)
  from new(2) have "first (new @ ys) = Some (hd new)"
    by (cases new) auto
  with s'(1) have ret: "insert_n t pos n v s = Some (Some (hd new), s')"
    by simp
  from assms(2) new(3) have "set new \<inter> dom (cells s) = {}"
    by (auto dest: heap_okD)
  with ret s'(2) split new(1) show ?thesis
    by blast
qed

theorem insert_count_returns_first_witness:
  "repr demo 0 [0, 1, 2] [10, 20, 30] \<and> heap_ok demo \<and> valid_pos 0 (Some 1) demo \<and>
   (\<exists>s' xs ys new. insert_n 0 (Some 1) 2 15 demo = Some (Some (hd new), s') \<and>
      [0, 1, 2] = xs @ ys \<and> Some 1 = first ys \<and> length new = 2 \<and>
      set new \<inter> dom (cells demo) = {} \<and>
      repr s' 0 (xs @ new @ ys)
        (take (length xs) [10, 20, 30] @ replicate 2 15 @ drop (length xs) [10, 20, 30]))"
proof -
  have v: "valid_pos 0 (Some 1) demo"
    by (simp add: valid_pos_def demo_def nexts_def eval_nat_numeral)
  have n: "(1::nat) \<le> 2"
    by simp
  from insert_count_returns_first[OF demo_repr demo_heap_ok v n, of 15] demo_repr demo_heap_ok v
  show ?thesis
    by simp
qed

text \<open>
  C3, for callers that pass a list its own iterators. Start from the state in which every list is empty and run any finite sequence
  of calls of the public interface in which each iterator passed to a list is the end
  iterator or points to a node of that list, and the \<open>last\<close> of \<open>erase(first, last)\<close> is
  met from \<open>first\<close>. Then every call returns (or throws, for \<open>front\<close> and \<open>back\<close>), and
  in the state after the run every list satisfies the invariant: \<open>size\<close> is the number of
  nodes met from \<open>head\<close> along \<open>next\<close>; \<open>head\<close> and \<open>tail\<close> are both null or
  both not; the \<open>prev\<close> of the successor of a node is that node; and the \<open>prev\<close> of the
  head node and the \<open>next\<close> of the tail node are null.
\<close>

theorem invariant_preserved:
  assumes "valid_run cs init"
  shows "\<exists>s. run cs init = Some s \<and> (\<forall>t. list_inv t s)"
proof -
  from run_wf[OF init_wf assms] obtain s A V where "run cs init = Some s" "wf_state s A V"
    by blast
  moreover from this(2) have "list_inv t s" for t
    by (auto simp: wf_state_def intro: repr_list_inv)
  ultimately show ?thesis
    by blast
qed

theorem invariant_preserved_witness:
  "valid_run demo_calls init \<and> (\<exists>s. run demo_calls init = Some s \<and> (\<forall>t. list_inv t s))"
  using invariant_preserved[OF demo_calls_valid] demo_calls_valid by blast

text \<open>
  Without the condition on the iterators the invariant is lost, in a run in which no pointer
  dangles: on the lists 0 (empty) and 1 (holding 7, 8, 9), \<open>erase\<close> of the list 0 with an
  iterator to the node holding 8 unlinks and frees that node and decrements the \<open>size\<close> of
  the list 0. The list 1 is left with \<open>size\<close> 3 and the two nodes 7, 9, and the list 0 with
  \<open>size\<close> \<open>2 ^ 64 - 1\<close> and no node.
\<close>

theorem invariant_needs_own_iterators:
  "run stray_calls init = Some stray_state \<and> \<not> valid_run stray_calls init \<and>
   \<not> list_inv 1 stray_state \<and> \<not> list_inv 0 stray_state \<and>
   getSize 1 stray_state = 3 \<and> forward (begin_it 1 stray_state) stray_state = Some [7, 9] \<and>
   getSize 0 stray_state = 2 ^ 64 - 1"
proof -
  have p1: "path (nexts (cells stray_state)) (head (objs stray_state 1)) [0, 2] None"
    by (simp add: stray_state_def nexts_def)
  have "\<not> list_inv 1 stray_state"
  proof
    assume "list_inv 1 stray_state"
    then obtain as where as: "path (nexts (cells stray_state)) (head (objs stray_state 1)) as None"
        "size_n (objs stray_state 1) = length as"
      unfolding list_inv_def by blast
    from path_unique[OF as(1) p1] as(2) show False
      by (simp add: stray_state_def)
  qed
  moreover have "\<not> list_inv 0 stray_state"
  proof
    assume "list_inv 0 stray_state"
    then obtain as where as: "path (nexts (cells stray_state)) (head (objs stray_state 0)) as None"
        "size_n (objs stray_state 0) = length as"
      unfolding list_inv_def by blast
    then show False
      by (simp add: stray_state_def)
  qed
  moreover have "forward (begin_it 1 stray_state) stray_state = Some [7, 9]"
    by (simp add: stray_state_def begin_it_def forward.simps end_it_def get_data_def
          get_next_def deref_def)
  moreover have "getSize 1 stray_state = 3" "getSize 0 stray_state = 2 ^ 64 - 1"
    by (simp_all add: stray_state_def getSize_def)
  ultimately show ?thesis
    using stray_run stray_no_run by simp
qed





text \<open>
  C5. For every sequence of values \<open>vs\<close> pushed with \<open>push_back\<close> in that order onto
  an empty list, all the calls return, traversal from \<open>begin()\<close> to \<open>end()\<close> yields
  \<open>vs\<close>, and traversal from \<open>rbegin()\<close> to \<open>rend()\<close> yields \<open>vs\<close> reversed.
\<close>

theorem push_back_order:
  assumes "repr s t [] []" "heap_ok s"
  shows "\<exists>s'. push_back_all t vs s = Some s' \<and>
           forward (begin_it t s') s' = Some vs \<and>
           backward (rbegin t s') s' = Some (rev vs)"
proof -
  from push_back_all_repr[OF assms, of vs] obtain s' where
    "push_back_all t vs s = Some s'" "repr s' t ([] @ [brk s..<brk s + length vs]) ([] @ vs)"
    by blast
  then show ?thesis
    using repr_forward repr_backward by fastforce
qed

theorem push_back_order_witness:
  "repr init 0 [] [] \<and> heap_ok init \<and>
   (\<exists>s'. push_back_all 0 [10, 20, 30 :: nat] init = Some s' \<and>
      forward (begin_it 0 s') s' = Some [10, 20, 30] \<and>
      backward (rbegin 0 s') s' = Some (rev [10, 20, 30]))"
  using push_back_order[OF init_repr init_heap_ok, of 0 "[10, 20, 30 :: nat]"]
    init_repr[of 0] init_heap_ok
  by blast

text \<open>
  C6. On a well-formed empty list \<open>pop_back\<close> and \<open>pop_front\<close> return and change
  nothing: the state after the call is the state before it, \<open>getSize()\<close> is 0, and
  \<open>head\<close> and \<open>tail\<close> stay null. On a well-formed list that is not empty they return;
  \<open>pop_back\<close> leaves the list of all nodes but the last, \<open>pop_front\<close> the list of all
  nodes but the first, with the same values; the removed node is the one node freed;
  \<open>size\<close> is one less; and \<open>head\<close> and \<open>tail\<close> are both null when the removed node
  was the only one.
\<close>

theorem pop_ends:
  assumes "repr s t as vs" "heap_ok s"
  shows "(as = [] \<longrightarrow>
            pop_back t s = Some s \<and> pop_front t s = Some s \<and> getSize t s = 0 \<and>
            head (objs s t) = None \<and> tail (objs s t) = None) \<and>
         (as \<noteq> [] \<longrightarrow>
            (\<exists>s'. pop_back t s = Some s' \<and> repr s' t (butlast as) (butlast vs) \<and>
                   dom (cells s') = dom (cells s) - {last as} \<and>
                   getSize t s = Suc (getSize t s') \<and>
                   (length as = 1 \<longrightarrow> head (objs s' t) = None \<and> tail (objs s' t) = None)) \<and>
            (\<exists>s'. pop_front t s = Some s' \<and> repr s' t (tl as) (tl vs) \<and>
                   dom (cells s') = dom (cells s) - {hd as} \<and>
                   getSize t s = Suc (getSize t s') \<and>
                   (length as = 1 \<longrightarrow> head (objs s' t) = None \<and> tail (objs s' t) = None)))"
proof (intro conjI impI)
  assume "as = []"
  with assms(1) show "pop_back t s = Some s" "pop_front t s = Some s" "getSize t s = 0"
      "head (objs s t) = None" "tail (objs s t) = None"
    by (simp_all add: repr_def dll_Nil pop_back_empty pop_front_empty getSize_def)
next
  assume ne: "as \<noteq> []"
  from repr_length[OF assms(1)] ne have nev: "vs \<noteq> []"
    by auto
  have doms: "dom (cells s') = dom (cells s) - {c}"
    if "step_ok s s' t as as'" "brk s' = brk s" "cells s' c = None" "repr s' t as' vs'"
      "set as = insert c (set as')" for s' as' vs' c
  proof (rule set_eqI)
    fix a
    show "a \<in> dom (cells s') \<longleftrightarrow> a \<in> dom (cells s) - {c}"
    proof (cases "a \<in> set as")
      case True
      with that(3,4,5) repr_dom[OF that(4), of a] repr_dom[OF assms(1), of a] show ?thesis
        by auto
    next
      case False
      with that(1,2,5) assms(2) show ?thesis
        by (cases "a < brk s") (auto simp: step_ok_def heap_ok_def)
    qed
  qed
  from ne nev have sp: "as = butlast as @ [last as]" "vs = butlast vs @ [last vs]"
    by simp_all
  with assms(1) have "repr s t (butlast as @ [last as]) (butlast vs @ [last vs])"
    by simp
  from pop_back_repr[OF this assms(2)] obtain s' where s':
    "pop_back t s = Some s'" "repr s' t (butlast as) (butlast vs)" "cells s' (last as) = None"
    "brk s' = brk s" "step_ok s s' t as (butlast as)"
    using sp by auto
  have "set as = insert (last as) (set (butlast as))"
    using sp(1) by (metis list.simps(15) rotate1.simps(2) set_rotate1)
  from doms[OF s'(5,4,3,2) this] have "dom (cells s') = dom (cells s) - {last as}" .
  moreover from s'(2) assms(1) ne have "getSize t s = Suc (getSize t s')"
    by (simp add: getSize_def repr_def dll_def)
  moreover from s'(2) have "length as = 1 \<longrightarrow> head (objs s' t) = None \<and> tail (objs s' t) = None"
    by (cases as) (auto simp: repr_def dll_Nil)
  ultimately show "\<exists>s'. pop_back t s = Some s' \<and> repr s' t (butlast as) (butlast vs) \<and>
                   dom (cells s') = dom (cells s) - {last as} \<and>
                   getSize t s = Suc (getSize t s') \<and>
                   (length as = 1 \<longrightarrow> head (objs s' t) = None \<and> tail (objs s' t) = None)"
    using s'(1,2) by blast
  from ne nev have sp': "as = hd as # tl as" "vs = hd vs # tl vs"
    by simp_all
  with assms(1) have "repr s t (hd as # tl as) (hd vs # tl vs)"
    by simp
  from pop_front_repr[OF this assms(2)] obtain s'' where s'':
    "pop_front t s = Some s''" "repr s'' t (tl as) (tl vs)" "cells s'' (hd as) = None"
    "brk s'' = brk s" "step_ok s s'' t as (tl as)"
    using sp' by auto
  have "set as = insert (hd as) (set (tl as))"
    using sp'(1) by (metis list.simps(15))
  from doms[OF s''(5,4,3,2) this] have "dom (cells s'') = dom (cells s) - {hd as}" .
  moreover from s''(2) assms(1) ne have "getSize t s = Suc (getSize t s'')"
    by (simp add: getSize_def repr_def dll_def)
  moreover from s''(2) have "length as = 1 \<longrightarrow> head (objs s'' t) = None \<and> tail (objs s'' t) = None"
    by (cases as) (auto simp: repr_def dll_Nil)
  ultimately show "\<exists>s'. pop_front t s = Some s' \<and> repr s' t (tl as) (tl vs) \<and>
                   dom (cells s') = dom (cells s) - {hd as} \<and>
                   getSize t s = Suc (getSize t s') \<and>
                   (length as = 1 \<longrightarrow> head (objs s' t) = None \<and> tail (objs s' t) = None)"
    using s''(1,2) by blast
qed


theorem pop_ends_witness:
  "repr demo 0 [0, 1, 2] [10, 20, 30] \<and> heap_ok demo \<and>
   (\<exists>s'. pop_back 0 demo = Some s' \<and> repr s' 0 [0, 1] [10, 20] \<and>
      dom (cells s') = dom (cells demo) - {2} \<and> getSize 0 demo = Suc (getSize 0 s')) \<and>
   (\<exists>s'. pop_front 0 demo = Some s' \<and> repr s' 0 [1, 2] [20, 30] \<and>
      dom (cells s') = dom (cells demo) - {0} \<and> getSize 0 demo = Suc (getSize 0 s')) \<and>
   repr (init :: nat state) 0 [] [] \<and> heap_ok (init :: nat state) \<and>
   pop_back 0 (init :: nat state) = Some init \<and> pop_front 0 (init :: nat state) = Some init \<and>
   getSize 0 (init :: nat state) = 0"
proof -
  have r: "repr (init :: nat state) 0 [] []"
    by (rule init_repr)
  have h: "heap_ok (init :: nat state)"
    by (rule init_heap_ok)
  from pop_ends[OF demo_repr demo_heap_ok] pop_ends[OF r h] demo_repr demo_heap_ok r h
  show ?thesis
    by simp
qed

text \<open>
  C7. In a well-formed state, for two distinct lists \<open>a\<close> and \<open>b\<close>, the move assignment
  \<open>a = std::move(b)\<close> returns; afterwards the object \<open>a\<close> holds the \<open>head\<close>,
  \<open>tail\<close> and \<open>size\<close> that \<open>b\<close> had and is the list of the nodes and values \<open>b\<close>
  was, and \<open>b\<close> is the empty list (\<open>head\<close> and \<open>tail\<close> null, \<open>size\<close> 0). The move
  self-assignment returns and leaves the state as it was.
\<close>

theorem move_assign_moves:
  assumes "wf_state s A V"
  shows "(a \<noteq> b \<longrightarrow>
            (\<exists>s'. move_assign a b s = Some s' \<and> objs s' a = objs s b \<and>
                   objs s' b = empty_obj \<and> repr s' a (A b) (V b) \<and> repr s' b [] [])) \<and>
         move_assign a a s = Some s"
proof (intro conjI impI)
  assume "a \<noteq> b"
  from move_assign_wf[OF assms this] obtain s' where s':
    "move_assign a b s = Some s'" "objs s' a = objs s b" "objs s' b = empty_obj"
    "wf_state s' (A(a := A b, b := [])) (V(a := V b, b := []))"
    by blast
  from s'(4) have "repr s' u ((A(a := A b, b := [])) u) ((V(a := V b, b := [])) u)" for u
    by (simp add: wf_state_def)
  from this[of a] this[of b] \<open>a \<noteq> b\<close> have "repr s' a (A b) (V b)" "repr s' b [] []"
    by simp_all
  with s'(1,2,3)
  show "\<exists>s'. move_assign a b s = Some s' \<and> objs s' a = objs s b \<and>
          objs s' b = empty_obj \<and> repr s' a (A b) (V b) \<and> repr s' b [] []"
    by blast
next
  show "move_assign a a s = Some s"
    by (rule move_assign_self)
qed

theorem move_assign_moves_witness:
  "wf_state demo ((\<lambda>_. [])(0 := [0, 1, 2])) ((\<lambda>_. [])(0 := [10, 20, 30])) \<and>
   (\<exists>s'. move_assign 1 0 demo = Some s' \<and> objs s' 1 = objs demo 0 \<and>
      objs s' 0 = empty_obj \<and> repr s' 1 [0, 1, 2] [10, 20, 30] \<and> repr s' 0 [] []) \<and>
   move_assign 0 0 demo = Some demo"
  using move_assign_moves[OF demo_wf, of 1 0] move_assign_moves[OF demo_wf, of 0 0] demo_wf
  by simp

text \<open>
  C8. For every well-formed list with the contents \<open>vs\<close> and every source sequence
  \<open>src\<close>, \<open>prepend_range\<close> (which calls \<open>emplace_front\<close> on the source in reverse)
  returns and leaves a list whose forward traversal yields \<open>src\<close> followed by \<open>vs\<close>;
  \<open>append_range\<close> returns and leaves a list whose forward traversal yields \<open>vs\<close>
  followed by \<open>src\<close>.
\<close>

theorem range_at_ends:
  assumes "repr s t as vs" "heap_ok s"
  shows "(\<exists>s'. prepend_range t src s = Some s' \<and> forward (begin_it t s') s' = Some (src @ vs)) \<and>
         (\<exists>s'. append_range t src s = Some s' \<and> forward (begin_it t s') s' = Some (vs @ src))"
proof
  from prepend_range_repr[OF assms, of src]
  show "\<exists>s'. prepend_range t src s = Some s' \<and> forward (begin_it t s') s' = Some (src @ vs)"
    using repr_forward by blast
  from append_range_repr[OF assms, of src]
  show "\<exists>s'. append_range t src s = Some s' \<and> forward (begin_it t s') s' = Some (vs @ src)"
    using repr_forward by blast
qed

theorem range_at_ends_witness:
  "repr demo 0 [0, 1, 2] [10, 20, 30] \<and> heap_ok demo \<and>
   (\<exists>s'. prepend_range 0 [1, 2] demo = Some s' \<and>
      forward (begin_it 0 s') s' = Some ([1, 2] @ [10, 20, 30])) \<and>
   (\<exists>s'. append_range 0 [1, 2] demo = Some s' \<and>
      forward (begin_it 0 s') s' = Some ([10, 20, 30] @ [1, 2]))"
  using range_at_ends[OF demo_repr demo_heap_ok, of "[1, 2]"] demo_repr demo_heap_ok
  by blast

text \<open>
  C9. The count-insert with count 0, \<open>insert(pos, 0, v)\<close>, leaves the list completely
  unchanged and returns an iterator equal to \<open>pos\<close>: the loop body never runs, so the
  whole state (nodes, \<open>head\<close>, \<open>tail\<close>, \<open>size\<close>) is the one before the call. This
  holds for every state and every iterator.
\<close>

theorem insert_count_zero: "insert_n t pos 0 v s = Some (pos, s)"
  by simp

text \<open>
  C10. The self-swap \<open>L.swap(L)\<close> leaves \<open>L\<close> unchanged: each of the three
  \<open>std::swap\<close> calls exchanges a member of the object with itself, so the state after the
  call (\<open>head\<close>, \<open>tail\<close>, \<open>size\<close> and all nodes) is the state before it.
\<close>

theorem swap_self: "swap_l t t s = s"
  by (simp add: swap_l_def Let_def set_head_def set_tail_def set_size_def)

end
